theory Spec2Isabelle
  imports Complex_Main
begin

section \<open>Go strings, runes and the library functions the parser calls\<close>

text \<open>
  A Go string is a sequence of bytes: \<^typ>\<open>string\<close>, a list of 8-bit characters.
  A rune is a Unicode code point. A \<open>float64\<close> is modelled by the real number it
  stands for; rounding is not modelled.
\<close>

type_synonym rune = nat

abbreviation byte :: "char \<Rightarrow> nat" where
  "byte c \<equiv> of_char c"

abbreviation rune_of :: "char \<Rightarrow> rune" where
  "rune_of c \<equiv> of_char c"

definition RuneError :: rune where
  "RuneError = 0xFFFD"

text \<open>
  \<open>s[a:b]\<close> and \<open>s[a:]\<close> on a Go string. Every slice the parser takes has
  \<open>a \<le> b \<le> len(s)\<close>, since both bounds are positions that a \<open>range\<close> loop
  over \<open>s\<close> has reached in order (or the end of the string), so the slice never panics:
  the positions of a range loop increase and stay below the length
  (\<open>range_string_sorted\<close>, \<open>range_string_indices\<close>).
\<close>

definition substr :: "string \<Rightarrow> nat \<Rightarrow> nat \<Rightarrow> string" where
  "substr s a b = take (b - a) (drop a s)"

text \<open>
  \<open>utf8.DecodeRuneInString\<close>: the rune at the start of a string and its width in
  bytes. A byte sequence that is not valid UTF-8 gives \<open>RuneError\<close> and width 1.
\<close>

definition DecodeRune :: "string \<Rightarrow> rune \<times> nat" where
  "DecodeRune s =
     (case s of
        [] \<Rightarrow> (RuneError, 0)
      | c0 # t \<Rightarrow>
          let s0 = byte c0 in
          if s0 < 0x80 then (s0, 1)
          else if s0 < 0xC2 \<or> 0xF4 < s0 then (RuneError, 1)
          else
            let sz = (if s0 < 0xE0 then 2 else if s0 < 0xF0 then 3 else 4 :: nat);
                lo = (if s0 = 0xE0 then 0xA0 else if s0 = 0xF0 then 0x90 else 0x80 :: nat);
                hi = (if s0 = 0xED then 0x9F else if s0 = 0xF4 then 0x8F else 0xBF :: nat)
            in
              if length s < sz then (RuneError, 1)
              else
                let s1 = byte (s ! 1) in
                if s1 < lo \<or> hi < s1 then (RuneError, 1)
                else if sz \<le> 2 then ((s0 mod 32) * 64 + s1 mod 64, 2)
                else
                  let s2 = byte (s ! 2) in
                  if s2 < 0x80 \<or> 0xBF < s2 then (RuneError, 1)
                  else if sz \<le> 3 then ((s0 mod 16) * 4096 + (s1 mod 64) * 64 + s2 mod 64, 3)
                  else
                    let s3 = byte (s ! 3) in
                    if s3 < 0x80 \<or> 0xBF < s3 then (RuneError, 1)
                    else ((s0 mod 8) * 262144 + (s1 mod 64) * 4096 + (s2 mod 64) * 64
                            + s3 mod 64, 4))"

text \<open>
  \<open>for i, r := range s\<close> visits the pairs (byte index, rune) of \<open>range_string 0 s\<close>,
  in order.
\<close>

function range_string :: "nat \<Rightarrow> string \<Rightarrow> (nat \<times> rune) list" where
  "range_string i s =
     (if s = [] then []
      else (i, fst (DecodeRune s))
             # range_string (i + snd (DecodeRune s)) (drop (snd (DecodeRune s)) s))"
  by pat_completeness auto
termination
  by (relation "measure (\<lambda>(i, s). length s)")
     (auto simp: DecodeRune_def Let_def split: list.splits)

declare range_string.simps [simp del]

text \<open>
  The parts of Go's standard library that are not code of this repository. On ASCII the
  Unicode classes are fixed below; on the other runes they are whatever the tables of
  package \<open>unicode\<close> say, taken as a parameter. \<open>strconv.ParseFloat\<close> is fixed below on
  the texts made of decimal digits, \<open>.\<close>, \<open>e\<close>, \<open>E\<close> and signs; on every other text
  (hexadecimal, \<open>Inf\<close>, \<open>NaN\<close>, underscores, anything else) it is a parameter.
\<close>

record go_lib =
  IsLetter_other :: "rune \<Rightarrow> bool"
  IsNumber_other :: "rune \<Rightarrow> bool"
  ParseFloat_other :: "string \<Rightarrow> real option"

definition unicode_IsLetter :: "go_lib \<Rightarrow> rune \<Rightarrow> bool" where
  "unicode_IsLetter L r =
     (if r < 0x80 then (0x41 \<le> r \<and> r \<le> 0x5A) \<or> (0x61 \<le> r \<and> r \<le> 0x7A)
      else IsLetter_other L r)"

definition unicode_IsNumber :: "go_lib \<Rightarrow> rune \<Rightarrow> bool" where
  "unicode_IsNumber L r =
     (if r < 0x80 then 0x30 \<le> r \<and> r \<le> 0x39 else IsNumber_other L r)"

definition is_digit :: "char \<Rightarrow> bool" where
  "is_digit c = (0x30 \<le> byte c \<and> byte c \<le> 0x39)"

definition digits_value :: "string \<Rightarrow> nat" where
  "digits_value ds = foldl (\<lambda>a c. 10 * a + (byte c - 0x30)) 0 ds"

definition split_sign :: "string \<Rightarrow> bool \<times> string" where
  "split_sign s =
     (case s of
        [] \<Rightarrow> (False, s)
      | c # t \<Rightarrow> if c = CHR ''-'' then (True, t) else if c = CHR ''+'' then (False, t)
                 else (False, s))"

definition scale10 :: "real \<Rightarrow> int \<Rightarrow> real" where
  "scale10 m e = (if 0 \<le> e then m * 10 ^ nat e else m / 10 ^ nat (- e))"

text \<open>
  A decimal floating-point literal: an optional sign, digits with at most one point and at
  least one digit, and an optional exponent \<open>e\<close> or \<open>E\<close> with an optional sign and at
  least one digit. A text that is not of this form is a syntax error; a value that
  rounds beyond the largest \<open>float64\<close> is a range error. Both are \<open>None\<close>. (Go
  stops accumulating an exponent once it has reached 10000, which changes the result only
  for texts of more than ten thousand characters; that is not modelled.)
\<close>

definition decimal_literal :: "string \<Rightarrow> real option" where
  "decimal_literal s =
     (let (neg, t) = split_sign s;
          ip = takeWhile is_digit t;
          r1 = dropWhile is_digit t;
          fp = (case r1 of [] \<Rightarrow> [] | c # u \<Rightarrow>
                  if c = CHR ''.'' then takeWhile is_digit u else []);
          r2 = (case r1 of [] \<Rightarrow> [] | c # u \<Rightarrow>
                  if c = CHR ''.'' then dropWhile is_digit u else r1);
          ex = (case r2 of
                  [] \<Rightarrow> Some 0
                | c # v \<Rightarrow>
                    if c = CHR ''e'' \<or> c = CHR ''E'' then
                      (let (eneg, w) = split_sign v in
                       if w \<noteq> [] \<and> list_all is_digit w
                       then Some (if eneg then - int (digits_value w) else int (digits_value w))
                       else None)
                    else None)
      in
        if ip = [] \<and> fp = [] then None
        else
          (case ex of
             None \<Rightarrow> None
           | Some e \<Rightarrow>
               let m = scale10 (real (digits_value (ip @ fp))) (e - int (length fp)) in
               if 2 ^ 1024 - 2 ^ 970 \<le> m then None
               else Some (if neg then - m else m)))"

definition decimal_chars :: "char set" where
  "decimal_chars = set ''0123456789.eE+-''"

definition strconv_ParseFloat :: "go_lib \<Rightarrow> string \<Rightarrow> real option" where
  "strconv_ParseFloat L s =
     (if set s \<subseteq> decimal_chars then decimal_literal s else ParseFloat_other L s)"

text \<open>\<open>strings.TrimSuffix\<close>.\<close>

definition TrimSuffix :: "string \<Rightarrow> string \<Rightarrow> string" where
  "TrimSuffix s suffix =
     (if length suffix \<le> length s \<and> drop (length s - length suffix) s = suffix
      then take (length s - length suffix) s else s)"

section \<open>The parser\<close>

datatype error =
    errParamMismatch
  | errCommandUnknown
  | errZeroLengthID
  | errMissingID
  | errNotImplemented
  | NumError string  \<comment> \<open>the error of \<open>strconv.ParseFloat\<close>, with the text it refused\<close>

datatype ErrorMode = IgnoreErrorMode | WarnErrorMode | StrictErrorMode

text \<open>The calls the parser makes on its \<open>gg.Context\<close>, the drawing sink.\<close>

datatype gg_call = MoveTo real real | LineTo real real | ClosePath

text \<open>
  The fields of the Go struct. \<open>dc\<close> is the sequence of calls made so far on the
  context the parser points to (a parser made by \<open>NewParser(nil)\<close> would panic at its
  first call; the pointer is taken to be valid); \<open>logged\<close> is not a field of the struct
  but what the parser has printed through package \<open>log\<close>.
\<close>

record Parser =
  placeX :: real
  placeY :: real
  curX :: real
  curY :: real
  cntlPtX :: real
  cntlPtY :: real
  pathStartX :: real
  pathStartY :: real
  points :: "real list"
  lastKey :: char
  ErrorMode :: ErrorMode
  inPath :: bool
  dc :: "gg_call list"
  logged :: "string list"

definition NewParser :: "gg_call list \<Rightarrow> Parser" where
  "NewParser ctx =
     \<lparr>placeX = 0, placeY = 0, curX = 0, curY = 0, cntlPtX = 0, cntlPtY = 0,
      pathStartX = 0, pathStartY = 0, points = [], lastKey = CHR 0x00,
      ErrorMode = IgnoreErrorMode, inPath = False, dc = ctx, logged = []\<rparr>"

definition unitSuffixes :: "string list" where
  "unitSuffixes = [''cm'', ''mm'', ''px'', ''pt'']"

definition trimSuffixes :: "string \<Rightarrow> string" where
  "trimSuffixes a =
     (if a = [] \<or> is_digit (last a) then a
      else foldl TrimSuffix a unitSuffixes)"

definition parseFloat :: "go_lib \<Rightarrow> string \<Rightarrow> error + real" where
  "parseFloat L s =
     (let val = trimSuffixes s in
      case strconv_ParseFloat L val of None \<Rightarrow> Inl (NumError val) | Some f \<Rightarrow> Inr f)"

fun valsToAbs_loop :: "real \<Rightarrow> real list \<Rightarrow> real list" where
  "valsToAbs_loop lst [] = []"
| "valsToAbs_loop lst (x # xs) = (lst + x) # valsToAbs_loop (lst + x) xs"

definition valsToAbs :: "Parser \<Rightarrow> real \<Rightarrow> Parser" where
  "valsToAbs p lst = p\<lparr>points := valsToAbs_loop lst (points p)\<rparr>"

text \<open>
  \<open>pointsToAbs\<close>: the inner loop over \<open>i\<close> and the outer loop over \<open>j\<close>. The only
  call passes \<open>sz = 2\<close> on a buffer of even length; \<open>sz = 0\<close> would panic in Go at
  \<open>points[-2]\<close>, and the outer loop below stops there instead.
\<close>

function pointsToAbs_inner ::
  "nat \<Rightarrow> nat \<Rightarrow> nat \<Rightarrow> real \<Rightarrow> real \<Rightarrow> real list \<Rightarrow> real list" where
  "pointsToAbs_inner sz j i lastX lastY pts =
     (if i < sz then
        pointsToAbs_inner sz j (i + 2) lastX lastY
          ((pts[i + j := pts ! (i + j) + lastX])
             [i + 1 + j := pts ! (i + 1 + j) + lastY])
      else pts)"
  by pat_completeness auto
termination
  by (relation "measure (\<lambda>(sz, j, i, lastX, lastY, pts). sz - i)") auto

declare pointsToAbs_inner.simps [simp del]

function pointsToAbs_outer ::
  "nat \<Rightarrow> nat \<Rightarrow> real \<Rightarrow> real \<Rightarrow> real list \<Rightarrow> real list" where
  "pointsToAbs_outer sz j lastX lastY pts =
     (if j < length pts \<and> 0 < sz then
        (let pts' = pointsToAbs_inner sz j 0 lastX lastY pts
         in pointsToAbs_outer sz (j + sz) (pts' ! ((j + sz) - 2)) (pts' ! ((j + sz) - 1)) pts')
      else pts)"
  by pat_completeness auto
termination
proof (relation "measure (\<lambda>(sz, j, lastX, lastY, pts). length pts - j)")
  show "wf (measure (\<lambda>(sz, j, lastX, lastY, pts). length pts - j))"
    by simp
next
  fix sz j :: nat and lastX lastY :: real and pts pts' :: "real list"
  assume a: "j < length pts \<and> 0 < sz" and b: "pts' = pointsToAbs_inner sz j 0 lastX lastY pts"
  have len: "length (pointsToAbs_inner sz j i lastX lastY xs) = length xs" for i xs
  proof (induction sz j i lastX lastY xs rule: pointsToAbs_inner.induct)
    case (1 sz j i lastX lastY pts)
    show ?case
      by (subst pointsToAbs_inner.simps) (use 1 in simp)
  qed
  show "((sz, j + sz, pts' ! (j + sz - 2), pts' ! (j + sz - 1), pts'),
         (sz, j, lastX, lastY, pts)) \<in> measure (\<lambda>(sz, j, lastX, lastY, pts). length pts - j)"
  proof -
    have "length pts' = length pts"
      using b len by simp
    with a show ?thesis
      by auto
  qed
qed

declare pointsToAbs_outer.simps [simp del]

definition pointsToAbs :: "Parser \<Rightarrow> nat \<Rightarrow> Parser" where
  "pointsToAbs p sz = p\<lparr>points := pointsToAbs_outer sz 0 (placeX p) (placeY p) (points p)\<rparr>"

text \<open>
  \<open>hasSetsOrMore\<close> returns its verdict and the parser, whose buffer it may have
  rewritten. Its callers pass \<open>sz = 2\<close> (\<open>sz = 0\<close> would divide by zero in Go).
\<close>

definition hasSetsOrMore :: "Parser \<Rightarrow> nat \<Rightarrow> bool \<Rightarrow> bool \<times> Parser" where
  "hasSetsOrMore p sz rel =
     (if \<not> (sz \<le> length (points p) \<and> length (points p) mod sz = 0) then (False, p)
      else if rel then (True, pointsToAbs p sz)
      else (True, p))"

text \<open>
  \<open>ReadFloat\<close>: the loop over the runes of \<open>numStr\<close> with its variables \<open>last\<close> and
  \<open>isFirst\<close>, then the rest of the text after the loop. A method returns the error
  (\<open>None\<close> for \<open>nil\<close>) and the parser as it has left it.
\<close>

fun ReadFloat_loop ::
  "go_lib \<Rightarrow> string \<Rightarrow> (nat \<times> rune) list \<Rightarrow> nat \<Rightarrow> bool \<Rightarrow> Parser
     \<Rightarrow> error option \<times> nat \<times> Parser" where
  "ReadFloat_loop L numStr [] lst isFirst p = (None, lst, p)"
| "ReadFloat_loop L numStr ((i, n) # rest) lst isFirst p =
     (if n = rune_of CHR ''.'' then
        (if isFirst then ReadFloat_loop L numStr rest lst False p
         else
           (case parseFloat L (substr numStr lst i) of
              Inl err \<Rightarrow> (Some err, lst, p)
            | Inr f \<Rightarrow> ReadFloat_loop L numStr rest i isFirst (p\<lparr>points := points p @ [f]\<rparr>)))
      else ReadFloat_loop L numStr rest lst isFirst p)"

definition ReadFloat :: "go_lib \<Rightarrow> Parser \<Rightarrow> string \<Rightarrow> error option \<times> Parser" where
  "ReadFloat L p numStr =
     (case ReadFloat_loop L numStr (range_string 0 numStr) 0 True p of
        (Some err, lst, p') \<Rightarrow> (Some err, p')
      | (None, lst, p') \<Rightarrow>
          (case parseFloat L (drop lst numStr) of
             Inl err \<Rightarrow> (Some err, p')
           | Inr f \<Rightarrow> (None, p'\<lparr>points := points p' @ [f]\<rparr>)))"

text \<open>\<open>GetPoints\<close>: the loop with its variables \<open>lastIndex\<close> and \<open>lr\<close>.\<close>

fun GetPoints_loop ::
  "go_lib \<Rightarrow> string \<Rightarrow> (nat \<times> rune) list \<Rightarrow> int \<Rightarrow> rune \<Rightarrow> Parser
     \<Rightarrow> error option \<times> int \<times> Parser" where
  "GetPoints_loop L dataPoints [] lastIndex lr p = (None, lastIndex, p)"
| "GetPoints_loop L dataPoints ((i, r) # rest) lastIndex lr p =
     (if \<not> unicode_IsNumber L r \<and> r \<noteq> rune_of CHR ''.''
           \<and> \<not> (r = rune_of CHR ''-'' \<and> lr = rune_of CHR ''e'') \<and> r \<noteq> rune_of CHR ''e''
      then
        (case (if lastIndex \<noteq> - 1 then ReadFloat L p (substr dataPoints (nat lastIndex) i)
               else (None, p)) of
           (Some err, p') \<Rightarrow> (Some err, lastIndex, p')
         | (None, p') \<Rightarrow>
             GetPoints_loop L dataPoints rest
               (if r = rune_of CHR ''-'' then int i else - 1) r p')
      else
        GetPoints_loop L dataPoints rest
          (if lastIndex = - 1 then int i else lastIndex) r p)"

definition GetPoints :: "go_lib \<Rightarrow> Parser \<Rightarrow> string \<Rightarrow> error option \<times> Parser" where
  "GetPoints L p dataPoints =
     (case GetPoints_loop L dataPoints (range_string 0 dataPoints) (- 1) (rune_of CHR '' '')
             (p\<lparr>points := []\<rparr>) of
        (Some err, lastIndex, p') \<Rightarrow> (Some err, p')
      | (None, lastIndex, p') \<Rightarrow>
          if lastIndex \<noteq> - 1 \<and> lastIndex \<noteq> int (length dataPoints)
          then ReadFloat L p' (substr dataPoints (nat lastIndex) (length dataPoints))
          else (None, p'))"

text \<open>The loop of the \<open>M\<close> case: \<open>for i := 2; i < l-1; i += 2\<close>, one line per further pair.\<close>

function addSeg_lines :: "nat \<Rightarrow> nat \<Rightarrow> Parser \<Rightarrow> Parser" where
  "addSeg_lines i l p =
     (if int i < int l - 1
      then addSeg_lines (i + 2) l (p\<lparr>dc := dc p @ [LineTo (points p ! i) (points p ! (i + 1))]\<rparr>)
      else p)"
  by pat_completeness auto
termination
  by (relation "measure (\<lambda>(i, l, p). l - i)") auto

declare addSeg_lines.simps [simp del]

text \<open>\<open>string(k)\<close> for a byte \<open>k\<close>: the UTF-8 encoding of the code point \<open>k\<close>.\<close>

definition string_of_byte :: "char \<Rightarrow> string" where
  "string_of_byte k =
     (if byte k < 0x80 then [k]
      else [char_of (0xC0 + byte k div 64), char_of (0x80 + byte k mod 64)])"

text \<open>
  \<open>addSeg\<close>: the argument text is tokenized first, for every command letter; then the
  switch on the first byte \<open>k\<close>, in the order of the source. \<open>segString\<close> is never
  empty: it starts at a command letter.
\<close>

definition addSeg :: "go_lib \<Rightarrow> Parser \<Rightarrow> string \<Rightarrow> error option \<times> Parser" where
  "addSeg L p segString =
     (case GetPoints L p (drop 1 segString) of
        (Some err, p1) \<Rightarrow> (Some err, p1)
      | (None, p1) \<Rightarrow>
          let l = length (points p1); k = segString ! 0 in
          if k = CHR ''z'' \<or> k = CHR ''Z'' then
            (if length (points p1) \<noteq> 0 then (Some errParamMismatch, p1)
             else
               (None, (if inPath p1
                       then p1\<lparr>placeX := pathStartX p1, placeY := pathStartY p1, inPath := False\<rparr>
                       else p1)\<lparr>lastKey := k\<rparr>))
          else if k = CHR ''m'' \<or> k = CHR ''M'' then
            (case hasSetsOrMore p1 2 (k = CHR ''m'') of
               (False, p2) \<Rightarrow> (Some errParamMismatch, p2)
             | (True, p2) \<Rightarrow>
                 let p3 = p2\<lparr>pathStartX := points p2 ! 0, pathStartY := points p2 ! 1,
                             inPath := True\<rparr>;
                     p4 = p3\<lparr>dc := dc p3 @ [MoveTo (points p3 ! 0) (points p3 ! 1)]\<rparr>;
                     p5 = addSeg_lines 2 l p4
                 in (None, p5\<lparr>placeX := points p5 ! (l - 2), placeY := points p5 ! (l - 1),
                               lastKey := k\<rparr>))
          else if k = CHR ''l'' \<or> k = CHR ''L'' then (Some errNotImplemented, p1)
          else if k = CHR ''v'' then (Some errNotImplemented, valsToAbs p1 (placeY p1))
          else if k = CHR ''V'' then (Some errNotImplemented, p1)
          else if k = CHR ''h'' then (Some errNotImplemented, valsToAbs p1 (placeX p1))
          else if k = CHR ''H'' then (Some errNotImplemented, p1)
          else if k = CHR ''q'' \<or> k = CHR ''Q'' then (Some errNotImplemented, p1)
          else if k = CHR ''t'' \<or> k = CHR ''T'' then (Some errNotImplemented, p1)
          else if k = CHR ''c'' \<or> k = CHR ''C'' then (Some errNotImplemented, p1)
          else if k = CHR ''s'' \<or> k = CHR ''S'' then (Some errNotImplemented, p1)
          else if k = CHR ''a'' \<or> k = CHR ''A'' then (Some errNotImplemented, p1)
          else if ErrorMode p1 = StrictErrorMode then (Some errCommandUnknown, p1)
          else
            (None, (if ErrorMode p1 = WarnErrorMode
                    then p1\<lparr>logged := logged p1 @ [''Ignoring svg command '' @ string_of_byte k]\<rparr>
                    else p1)\<lparr>lastKey := k\<rparr>))"

definition init :: "Parser \<Rightarrow> Parser" where
  "init p = p\<lparr>placeX := 0, placeY := 0, points := [], lastKey := CHR '' '', inPath := False\<rparr>"

text \<open>\<open>CompilePath\<close>: the loop over the runes of \<open>svgPath\<close> with its variable \<open>lastIndex\<close>.\<close>

fun CompilePath_loop ::
  "go_lib \<Rightarrow> string \<Rightarrow> (nat \<times> rune) list \<Rightarrow> int \<Rightarrow> Parser \<Rightarrow> error option \<times> int \<times> Parser" where
  "CompilePath_loop L svgPath [] lastIndex p = (None, lastIndex, p)"
| "CompilePath_loop L svgPath ((i, v) # rest) lastIndex p =
     (if unicode_IsLetter L v \<and> v \<noteq> rune_of CHR ''e'' then
        (case (if lastIndex \<noteq> - 1 then addSeg L p (substr svgPath (nat lastIndex) i)
               else (None, p)) of
           (Some err, p') \<Rightarrow> (Some err, lastIndex, p')
         | (None, p') \<Rightarrow> CompilePath_loop L svgPath rest (int i) p')
      else CompilePath_loop L svgPath rest lastIndex p)"

definition CompilePath :: "go_lib \<Rightarrow> Parser \<Rightarrow> string \<Rightarrow> error option \<times> Parser" where
  "CompilePath L p svgPath =
     (case CompilePath_loop L svgPath (range_string 0 svgPath) (- 1) (init p) of
        (Some err, lastIndex, p1) \<Rightarrow> (Some err, p1)
      | (None, lastIndex, p1) \<Rightarrow>
          (case (if lastIndex \<noteq> - 1 then addSeg L p1 (drop (nat lastIndex) svgPath)
                 else (None, p1)) of
             (Some err, p2) \<Rightarrow> (Some err, p2)
           | (None, p2) \<Rightarrow> (None, p2\<lparr>dc := dc p2 @ [ClosePath]\<rparr>)))"


section \<open>The splitter and the dispatcher of the specification\<close>

text \<open>
  The specification describes \<open>CompilePath\<close> as a path splitter that cuts the text at
  its command letters, followed by a dispatcher that takes the segments one by one and
  stops at the first error. These definitions say so; \<open>CompilePath_segments\<close> below
  proves that the loop of the source does the same.
\<close>

definition command_positions :: "go_lib \<Rightarrow> string \<Rightarrow> nat list" where
  "command_positions L s =
     map fst (filter (\<lambda>(i, v). unicode_IsLetter L v \<and> v \<noteq> rune_of CHR ''e'')
                (range_string 0 s))"

fun segments_at :: "string \<Rightarrow> nat list \<Rightarrow> string list" where
  "segments_at s [] = []"
| "segments_at s [i] = [drop i s]"
| "segments_at s (i # j # js) = substr s i j # segments_at s (j # js)"

definition segments :: "go_lib \<Rightarrow> string \<Rightarrow> string list" where
  "segments L s = segments_at s (command_positions L s)"

fun addSegs :: "go_lib \<Rightarrow> Parser \<Rightarrow> string list \<Rightarrow> error option \<times> Parser" where
  "addSegs L p [] = (None, p)"
| "addSegs L p (seg # segs) =
     (case addSeg L p seg of
        (Some err, p') \<Rightarrow> (Some err, p')
      | (None, p') \<Rightarrow> addSegs L p' segs)"


text \<open>The lines that the pairs after the first emit, in order.\<close>

fun line_calls :: "real list \<Rightarrow> gg_call list" where
  "line_calls (x # y # rest) = LineTo x y # line_calls rest"
| "line_calls rest = []"


text \<open>
  The absolute values of a run of relative pairs: the first pair is relative to
  \<open>(lastX, lastY)\<close>, each further pair to the absolute pair before it.
\<close>

fun rel_pairs :: "real \<Rightarrow> real \<Rightarrow> real list \<Rightarrow> real list" where
  "rel_pairs lastX lastY (x # y # rest) =
     (x + lastX) # (y + lastY) # rel_pairs (x + lastX) (y + lastY) rest"
| "rel_pairs lastX lastY rest = rest"


text \<open>What \<open>CompilePath\<close> does after its loop, short of the closing call.\<close>

definition finish :: "go_lib \<Rightarrow> string \<Rightarrow> error option \<times> int \<times> Parser \<Rightarrow> error option \<times> Parser" where
  "finish L s r =
     (case r of
        (Some err, lastIndex, p1) \<Rightarrow> (Some err, p1)
      | (None, lastIndex, p1) \<Rightarrow>
          (if lastIndex \<noteq> - 1 then addSeg L p1 (drop (nat lastIndex) s) else (None, p1)))"

abbreviation (input) is_command :: "go_lib \<Rightarrow> nat \<times> rune \<Rightarrow> bool" where
  "is_command L \<equiv> (\<lambda>(i, v). unicode_IsLetter L v \<and> v \<noteq> rune_of CHR ''e'')"


text \<open>
  A library for the closed examples, whose texts are ASCII and decimal: its three
  parameters are never consulted there.
\<close>

definition ascii_lib :: go_lib where
  "ascii_lib = \<lparr>IsLetter_other = (\<lambda>r. False), IsNumber_other = (\<lambda>r. False),
                 ParseFloat_other = (\<lambda>s. None)\<rparr>"

section \<open>Evaluation on ASCII text\<close>

lemma range_string_Nil [simp]: "range_string i [] = []"
  by (simp add: range_string.simps)

lemma DecodeRune_ascii: "byte c < 0x80 \<Longrightarrow> DecodeRune (c # cs) = (byte c, 1)"
  by (simp add: DecodeRune_def)

lemma range_string_ascii:
  "byte c < 0x80 \<Longrightarrow> range_string i (c # cs) = (i, byte c) # range_string (Suc i) cs"
  by (subst range_string.simps) (simp add: DecodeRune_ascii)

lemmas parseFloat_defs = parseFloat_def trimSuffixes_def strconv_ParseFloat_def
  decimal_chars_def decimal_literal_def is_digit_def split_sign_def digits_value_def
  scale10_def unitSuffixes_def TrimSuffix_def

lemma parseFloat_tokens:
  "parseFloat L ''0'' = Inr 0"
  "parseFloat L ''1'' = Inr 1"
  "parseFloat L ''2'' = Inr 2"
  "parseFloat L ''3'' = Inr 3"
  "parseFloat L ''4'' = Inr 4"
  "parseFloat L ''5'' = Inr 5"
  "parseFloat L ''10'' = Inr 10"
  "parseFloat L ''75'' = Inr 75"
  "parseFloat L ''150'' = Inr 150"
  "parseFloat L ''200'' = Inr 200"
  "parseFloat L ''1.5'' = Inr (3 / 2)"
  "parseFloat L ''.5'' = Inr (1 / 2)"
  "parseFloat L ''1e-5'' = Inr (1 / 100000)"
  "parseFloat L ''1e2'' = Inr 100"
  "parseFloat L ''.'' = Inl (NumError ''.'')"
  "parseFloat L ''-'' = Inl (NumError ''-'')"
  by (simp_all add: parseFloat_defs)

lemma addSeg_lines_step:
  "i + 1 < l \<Longrightarrow> addSeg_lines i l p
     = addSeg_lines (i + 2) l (p\<lparr>dc := dc p @ [LineTo (points p ! i) (points p ! (i + 1))]\<rparr>)"
  by (subst addSeg_lines.simps) simp

lemma addSeg_lines_stop: "\<not> i + 1 < l \<Longrightarrow> addSeg_lines i l p = p"
  by (subst addSeg_lines.simps) simp

lemma pointsToAbs_inner_step:
  "i < sz \<Longrightarrow> pointsToAbs_inner sz j i lastX lastY pts
     = pointsToAbs_inner sz j (i + 2) lastX lastY
         ((pts[i + j := pts ! (i + j) + lastX])[i + 1 + j := pts ! (i + 1 + j) + lastY])"
  by (subst pointsToAbs_inner.simps) simp

lemma pointsToAbs_inner_stop: "\<not> i < sz \<Longrightarrow> pointsToAbs_inner sz j i lastX lastY pts = pts"
  by (subst pointsToAbs_inner.simps) simp

lemma pointsToAbs_outer_step:
  "j < length pts \<Longrightarrow> 0 < sz \<Longrightarrow> pointsToAbs_outer sz j lastX lastY pts
     = (let pts' = pointsToAbs_inner sz j 0 lastX lastY pts
        in pointsToAbs_outer sz (j + sz) (pts' ! ((j + sz) - 2)) (pts' ! ((j + sz) - 1)) pts')"
  by (subst pointsToAbs_outer.simps) simp

lemma pointsToAbs_outer_stop:
  "\<not> j < length pts \<Longrightarrow> pointsToAbs_outer sz j lastX lastY pts = pts"
  by (subst pointsToAbs_outer.simps) simp

lemmas eval_simps = Let_def CompilePath_def init_def addSeg_def GetPoints_def ReadFloat_def
  hasSetsOrMore_def pointsToAbs_def valsToAbs_def substr_def string_of_byte_def
  unicode_IsLetter_def unicode_IsNumber_def range_string_ascii parseFloat_tokens
  addSeg_lines_step addSeg_lines_stop pointsToAbs_inner_step pointsToAbs_inner_stop
  pointsToAbs_outer_step pointsToAbs_outer_stop


section \<open>What the tokenizer leaves untouched\<close>

lemma ReadFloat_loop_frame:
  "ReadFloat_loop L s xs lst f p = (e, l', p') \<Longrightarrow> p'\<lparr>points := []\<rparr> = p\<lparr>points := []\<rparr>"
proof (induction xs arbitrary: lst f p)
  case Nil
  then show ?case by simp
next
  case (Cons x xs)
  obtain i n where x: "x = (i, n)" by (cases x)
  show ?case
  proof (cases "n = rune_of CHR ''.'' \<and> \<not> f")
    case True
    show ?thesis
    proof (cases "parseFloat L (substr s lst i)")
      case (Inl err)
      with Cons.prems x True show ?thesis by simp
    next
      case (Inr v)
      with Cons.prems x True
      have "ReadFloat_loop L s xs i f (p\<lparr>points := points p @ [v]\<rparr>) = (e, l', p')"
        by simp
      from Cons.IH [OF this] show ?thesis by simp
    qed
  next
    case False
    with Cons.prems x have "\<exists>f'. ReadFloat_loop L s xs lst f' p = (e, l', p')"
      by (auto split: if_splits)
    then show ?thesis using Cons.IH by blast
  qed
qed

lemma ReadFloat_frame:
  assumes "ReadFloat L p s = (e, p')"
  shows "p'\<lparr>points := []\<rparr> = p\<lparr>points := []\<rparr>"
proof -
  obtain e1 l1 p1 where loop: "ReadFloat_loop L s (range_string 0 s) 0 True p = (e1, l1, p1)"
    by (cases "ReadFloat_loop L s (range_string 0 s) 0 True p")
  from ReadFloat_loop_frame [OF loop] have p1: "p1\<lparr>points := []\<rparr> = p\<lparr>points := []\<rparr>" .
  from assms loop have "p' = p1 \<or> (\<exists>v. p' = p1\<lparr>points := points p1 @ [v]\<rparr>)"
    by (auto simp: ReadFloat_def split: option.splits sum.splits)
  with p1 show ?thesis by auto
qed

lemma GetPoints_loop_frame:
  "GetPoints_loop L d xs li lr p = (e, l', p') \<Longrightarrow> p'\<lparr>points := []\<rparr> = p\<lparr>points := []\<rparr>"
proof (induction xs arbitrary: li lr p)
  case Nil
  then show ?case by simp
next
  case (Cons x xs)
  obtain i r where x: "x = (i, r)" by (cases x)
  let ?boundary = "\<not> unicode_IsNumber L r \<and> r \<noteq> rune_of CHR ''.''
           \<and> \<not> (r = rune_of CHR ''-'' \<and> lr = rune_of CHR ''e'') \<and> r \<noteq> rune_of CHR ''e''"
  show ?case
  proof (cases "?boundary \<and> li \<noteq> - 1")
    case True
    obtain e1 p1 where rf: "ReadFloat L p (substr d (nat li) i) = (e1, p1)"
      by (cases "ReadFloat L p (substr d (nat li) i)")
    from ReadFloat_frame [OF rf] have p1: "p1\<lparr>points := []\<rparr> = p\<lparr>points := []\<rparr>" .
    show ?thesis
    proof (cases e1)
      case None
      with Cons.prems x True rf
      have "\<exists>li'. GetPoints_loop L d xs li' r p1 = (e, l', p')"
        by auto
      with Cons.IH p1 show ?thesis by metis
    next
      case (Some err)
      with Cons.prems x True rf have "p' = p1" by simp
      with p1 show ?thesis by simp
    qed
  next
    case False
    with Cons.prems x have "\<exists>li'. GetPoints_loop L d xs li' r p = (e, l', p')"
      by (auto split: if_splits)
    with Cons.IH show ?thesis by blast
  qed
qed

lemma GetPoints_frame:
  assumes "GetPoints L p d = (e, p')"
  shows "p'\<lparr>points := []\<rparr> = p\<lparr>points := []\<rparr>"
proof -
  obtain e1 l1 p1 where loop:
    "GetPoints_loop L d (range_string 0 d) (- 1) (rune_of CHR '' '') (p\<lparr>points := []\<rparr>)
       = (e1, l1, p1)"
    using prod_cases3 by blast
  from GetPoints_loop_frame [OF loop] have p1: "p1\<lparr>points := []\<rparr> = p\<lparr>points := []\<rparr>"
    by simp
  show ?thesis
  proof (cases "e1 = None \<and> l1 \<noteq> - 1 \<and> l1 \<noteq> int (length d)")
    case True
    with assms loop have "ReadFloat L p1 (substr d (nat l1) (length d)) = (e, p')"
      by (auto simp: GetPoints_def)
    from ReadFloat_frame [OF this] p1 show ?thesis by simp
  next
    case False
    with assms loop have "p' = p1"
      by (auto simp: GetPoints_def split: option.splits if_splits)
    with p1 show ?thesis by simp
  qed
qed

lemma frame_fields:
  fixes p p' :: Parser
  assumes "p'\<lparr>points := []\<rparr> = p\<lparr>points := []\<rparr>"
  shows "dc p' = dc p" and "ErrorMode p' = ErrorMode p" and "inPath p' = inPath p"
    and "placeX p' = placeX p" and "placeY p' = placeY p"
    and "pathStartX p' = pathStartX p" and "pathStartY p' = pathStartY p"
    and "logged p' = logged p" and "lastKey p' = lastKey p"
    and "p' = p\<lparr>points := points p'\<rparr>"
proof -
  have f: "g (p'\<lparr>points := []\<rparr>) = g (p\<lparr>points := []\<rparr>)" for g :: "Parser \<Rightarrow> 'b"
    using assms by simp
  show "dc p' = dc p" using f [of dc] by simp
  show "ErrorMode p' = ErrorMode p" using f [of ErrorMode] by simp
  show "inPath p' = inPath p" using f [of inPath] by simp
  show "placeX p' = placeX p" using f [of placeX] by simp
  show "placeY p' = placeY p" using f [of placeY] by simp
  show "pathStartX p' = pathStartX p" using f [of pathStartX] by simp
  show "pathStartY p' = pathStartY p" using f [of pathStartY] by simp
  show "logged p' = logged p" using f [of logged] by simp
  show "lastKey p' = lastKey p" using f [of lastKey] by simp
  show "p' = p\<lparr>points := points p'\<rparr>"
    using f [of "\<lambda>q. q\<lparr>points := points p'\<rparr>"] by simp
qed

lemma addSeg_lines_eq:
  "l = length (points p) \<Longrightarrow>
   addSeg_lines i l p = p\<lparr>dc := dc p @ line_calls (drop i (points p))\<rparr>"
proof (induction i l p rule: addSeg_lines.induct)
  case (1 i l p)
  show ?case
  proof (cases "int i < int l - 1")
    case True
    with 1 have len: "i < length (points p)" "Suc i < length (points p)"
      by auto
    have "drop i (points p) = points p ! i # points p ! Suc i # drop (Suc (Suc i)) (points p)"
      using len by (simp add: Cons_nth_drop_Suc)
    moreover have "addSeg_lines i l p
        = addSeg_lines (i + 2) l (p\<lparr>dc := dc p @ [LineTo (points p ! i) (points p ! (i + 1))]\<rparr>)"
      using True by (subst addSeg_lines.simps) simp
    ultimately show ?thesis
      using 1 True by simp
  next
    case False
    with 1 have "length (drop i (points p)) \<le> 1"
      by auto
    then have "line_calls (drop i (points p)) = []"
      by (cases "drop i (points p)" rule: line_calls.cases) auto
    moreover have "addSeg_lines i l p = p"
      using False by (subst addSeg_lines.simps) simp
    ultimately show ?thesis
      by simp
  qed
qed

lemma ClosePath_notin_line_calls: "ClosePath \<notin> set (line_calls xs)"
  by (induction xs rule: line_calls.induct) auto

lemma GetPoints_empty: "GetPoints L p [] = (None, p\<lparr>points := []\<rparr>)"
  by (simp add: GetPoints_def range_string.simps)

lemma addSeg_GetPoints_error:
  "GetPoints L p (drop 1 seg) = (Some e, q) \<Longrightarrow> addSeg L p seg = (Some e, q)"
  by (simp add: addSeg_def)

lemma addSeg_MoveTo_abs:
  assumes gp: "GetPoints L p (drop 1 seg) = (None, q)"
    and k: "seg ! 0 = CHR ''M''"
    and pts: "points q = x # y # rest" and ev: "even (length rest)"
  shows "addSeg L p seg =
           (None, q\<lparr>pathStartX := x, pathStartY := y, inPath := True,
                    dc := dc p @ MoveTo x y # line_calls rest,
                    placeX := last (butlast (points q)), placeY := last (points q),
                    lastKey := CHR ''M''\<rparr>)"
proof -
  have dcq: "dc q = dc p"
    using frame_fields(1) [OF GetPoints_frame [OF gp]] .
  have len: "length (points q) = Suc (Suc (length rest))"
    using pts by simp
  have hs: "hasSetsOrMore q 2 False = (True, q)"
    using ev len by (simp add: hasSetsOrMore_def)
  let ?q4 = "q\<lparr>pathStartX := x, pathStartY := y, inPath := True, dc := dc p @ [MoveTo x y]\<rparr>"
  have lines: "addSeg_lines 2 (length (points q)) ?q4
                 = ?q4\<lparr>dc := dc ?q4 @ line_calls (drop 2 (points ?q4))\<rparr>"
    by (rule addSeg_lines_eq) simp
  have lastx: "points q ! (length (points q) - 2) = last (butlast (points q))"
  proof -
    have lb: "length (butlast (points q)) = Suc (length rest)"
      using len by simp
    have "butlast (points q) \<noteq> []"
      using pts by simp
    then have "last (butlast (points q)) = butlast (points q) ! length rest"
      using lb by (simp add: last_conv_nth)
    also have "\<dots> = points q ! length rest"
      using lb by (simp add: nth_butlast)
    finally show ?thesis
      using len by simp
  qed
  have lasty: "points q ! (length (points q) - Suc 0) = last (points q)"
  proof -
    have "points q \<noteq> []"
      using pts by simp
    then show ?thesis
      by (simp add: last_conv_nth)
  qed
  have gp': "GetPoints L p (drop (Suc 0) seg) = (None, q)"
    using gp by simp
  have p0: "points q ! 0 = x" "points q ! Suc 0 = y" "drop 2 (points q) = rest"
    using pts by simp_all
  show ?thesis
    unfolding addSeg_def
    by (simp add: gp' k hs Let_def lines p0 dcq lastx lasty)
qed

section \<open>The errors of the tokenizer\<close>

lemma parseFloat_error: "parseFloat L s = Inl e \<Longrightarrow> \<exists>t. e = NumError t"
  by (auto simp: parseFloat_def Let_def split: option.splits)

lemma ReadFloat_loop_error:
  "ReadFloat_loop L s xs lst f p = (Some e, l', p') \<Longrightarrow> \<exists>t. e = NumError t"
proof (induction xs arbitrary: lst f p)
  case Nil
  then show ?case by simp
next
  case (Cons x xs)
  obtain i n where x: "x = (i, n)" by (cases x)
  show ?case
  proof (cases "n = rune_of CHR ''.'' \<and> \<not> f")
    case True
    show ?thesis
    proof (cases "parseFloat L (substr s lst i)")
      case (Inl err)
      with Cons.prems x True have "e = err" by simp
      with Inl parseFloat_error show ?thesis by blast
    next
      case (Inr v)
      with Cons.prems x True
      have "ReadFloat_loop L s xs i f (p\<lparr>points := points p @ [v]\<rparr>) = (Some e, l', p')"
        by simp
      from Cons.IH [OF this] show ?thesis .
    qed
  next
    case False
    with Cons.prems x have "\<exists>f'. ReadFloat_loop L s xs lst f' p = (Some e, l', p')"
      by (auto split: if_splits)
    then show ?thesis using Cons.IH by blast
  qed
qed

lemma ReadFloat_error:
  assumes "ReadFloat L p s = (Some e, p')"
  shows "\<exists>t. e = NumError t"
proof -
  obtain e1 l1 p1 where loop: "ReadFloat_loop L s (range_string 0 s) 0 True p = (e1, l1, p1)"
    by (cases "ReadFloat_loop L s (range_string 0 s) 0 True p")
  show ?thesis
  proof (cases e1)
    case None
    with assms loop have "parseFloat L (drop l1 s) = Inl e"
      by (auto simp: ReadFloat_def split: sum.splits)
    then show ?thesis by (rule parseFloat_error)
  next
    case (Some err)
    with assms loop have "e = err"
      by (simp add: ReadFloat_def)
    with Some loop ReadFloat_loop_error show ?thesis by blast
  qed
qed

lemma GetPoints_loop_error:
  "GetPoints_loop L d xs li lr p = (Some e, l', p') \<Longrightarrow> \<exists>t. e = NumError t"
proof (induction xs arbitrary: li lr p)
  case Nil
  then show ?case by simp
next
  case (Cons x xs)
  obtain i r where x: "x = (i, r)" by (cases x)
  let ?boundary = "\<not> unicode_IsNumber L r \<and> r \<noteq> rune_of CHR ''.''
           \<and> \<not> (r = rune_of CHR ''-'' \<and> lr = rune_of CHR ''e'') \<and> r \<noteq> rune_of CHR ''e''"
  show ?case
  proof (cases "?boundary \<and> li \<noteq> - 1")
    case True
    obtain e1 p1 where rf: "ReadFloat L p (substr d (nat li) i) = (e1, p1)"
      by (cases "ReadFloat L p (substr d (nat li) i)")
    show ?thesis
    proof (cases e1)
      case None
      with Cons.prems x True rf
      have "\<exists>li'. GetPoints_loop L d xs li' r p1 = (Some e, l', p')"
        by auto
      with Cons.IH show ?thesis by blast
    next
      case (Some err)
      with Cons.prems x True rf have "e = err" by simp
      with Some rf ReadFloat_error show ?thesis by blast
    qed
  next
    case False
    with Cons.prems x have "\<exists>li'. GetPoints_loop L d xs li' r p = (Some e, l', p')"
      by (auto split: if_splits)
    with Cons.IH show ?thesis by blast
  qed
qed

lemma GetPoints_error:
  assumes "GetPoints L p d = (Some e, p')"
  shows "\<exists>t. e = NumError t"
proof -
  obtain e1 l1 p1 where loop:
    "GetPoints_loop L d (range_string 0 d) (- 1) (rune_of CHR '' '') (p\<lparr>points := []\<rparr>)
       = (e1, l1, p1)"
    using prod_cases3 by blast
  show ?thesis
  proof (cases e1)
    case None
    with assms loop have "ReadFloat L p1 (substr d (nat l1) (length d)) = (Some e, p')"
      by (auto simp: GetPoints_def split: if_splits)
    then show ?thesis by (rule ReadFloat_error)
  next
    case (Some err)
    with assms loop have "e = err"
      by (simp add: GetPoints_def)
    with Some loop GetPoints_loop_error show ?thesis by blast
  qed
qed

section \<open>The splitter and the loop of CompilePath\<close>

lemma CompilePath_loop_started:
  "finish L s (CompilePath_loop L s xs (int a) p)
     = addSegs L p (segments_at s (a # map fst (filter (is_command L) xs)))"
proof (induction xs arbitrary: a p)
  case Nil
  show ?case
    by (simp add: finish_def split: prod.splits option.splits)
next
  case (Cons x xs)
  obtain i v where x: "x = (i, v)" by (cases x)
  show ?case
  proof (cases "unicode_IsLetter L v \<and> v \<noteq> rune_of CHR ''e''")
    case True
    obtain e1 p1 where seg: "addSeg L p (substr s a i) = (e1, p1)"
      by (cases "addSeg L p (substr s a i)")
    show ?thesis
    proof (cases e1)
      case None
      with x True seg Cons.IH [of i p1] show ?thesis
        by simp
    next
      case (Some err)
      with x True seg show ?thesis
        by (simp add: finish_def)
    qed
  next
    case False
    with x Cons.IH [of a p] show ?thesis
      by auto
  qed
qed

lemma CompilePath_loop_fresh:
  "finish L s (CompilePath_loop L s xs (- 1) p)
     = addSegs L p (segments_at s (map fst (filter (is_command L) xs)))"
proof (induction xs arbitrary: p)
  case Nil
  show ?case
    by (simp add: finish_def)
next
  case (Cons x xs)
  obtain i v where x: "x = (i, v)" by (cases x)
  show ?case
  proof (cases "unicode_IsLetter L v \<and> v \<noteq> rune_of CHR ''e''")
    case True
    with x CompilePath_loop_started [of L s xs i p] show ?thesis
      by simp
  next
    case False
    with x Cons.IH [of p] show ?thesis
      by auto
  qed
qed

lemma CompilePath_segments:
  "CompilePath L p s =
     (case addSegs L (init p) (segments L s) of
        (Some err, q) \<Rightarrow> (Some err, q)
      | (None, q) \<Rightarrow> (None, q\<lparr>dc := dc q @ [ClosePath]\<rparr>))"
proof -
  obtain e1 l1 p1 where loop:
    "CompilePath_loop L s (range_string 0 s) (- 1) (init p) = (e1, l1, p1)"
    using prod_cases3 by blast
  have "finish L s (e1, l1, p1) = addSegs L (init p) (segments L s)"
    using CompilePath_loop_fresh [of L s "range_string 0 s" "init p"] loop
    by (simp add: segments_def command_positions_def)
  then show ?thesis
    unfolding CompilePath_def loop
    by (cases e1) (auto simp: finish_def split: prod.splits option.splits)
qed

section \<open>The calls a segment emits\<close>

lemma addSeg_lines_dc:
  "\<exists>cs. addSeg_lines i l p = p\<lparr>dc := dc p @ cs\<rparr> \<and> ClosePath \<notin> set cs"
proof (induction i l p rule: addSeg_lines.induct)
  case (1 i l p)
  show ?case
  proof (cases "int i < int l - 1")
    case True
    let ?c = "LineTo (points p ! i) (points p ! (i + 1))"
    let ?p' = "p\<lparr>dc := dc p @ [?c]\<rparr>"
    from 1 True obtain cs where
      cs: "addSeg_lines (i + 2) l ?p' = ?p'\<lparr>dc := dc ?p' @ cs\<rparr>" "ClosePath \<notin> set cs"
      by blast
    have "addSeg_lines i l p = addSeg_lines (i + 2) l ?p'"
      using True by (subst addSeg_lines.simps) simp
    with cs have "addSeg_lines i l p = p\<lparr>dc := dc p @ (?c # cs)\<rparr> \<and> ClosePath \<notin> set (?c # cs)"
      by simp
    then show ?thesis
      by blast
  next
    case False
    then have "addSeg_lines i l p = p\<lparr>dc := dc p @ []\<rparr> \<and> ClosePath \<notin> set []"
      by (subst addSeg_lines.simps) simp
    then show ?thesis
      by blast
  qed
qed

lemma hasSetsOrMore_dc: "hasSetsOrMore p sz rel = (b, q) \<Longrightarrow> dc q = dc p"
  by (auto simp: hasSetsOrMore_def pointsToAbs_def split: if_splits)

lemma addSeg_dc:
  assumes "addSeg L p seg = (r, q)"
  shows "\<exists>cs. dc q = dc p @ cs \<and> ClosePath \<notin> set cs \<and> (r \<noteq> None \<longrightarrow> cs = [])"
proof -
  obtain e1 p1 where gp: "GetPoints L p (drop (Suc 0) seg) = (e1, p1)"
    by (cases "GetPoints L p (drop (Suc 0) seg)")
  have dc1: "dc p1 = dc p"
    using frame_fields(1) [OF GetPoints_frame [OF gp]] .
  show ?thesis
  proof (cases e1)
    case (Some err)
    with assms gp dc1 show ?thesis
      by (simp add: addSeg_def)
  next
    case None
    show ?thesis
    proof (cases "seg ! 0 = CHR ''m'' \<or> seg ! 0 = CHR ''M''")
      case True
      obtain b p2 where hs: "hasSetsOrMore p1 2 (seg ! 0 = CHR ''m'') = (b, p2)"
        by (cases "hasSetsOrMore p1 2 (seg ! 0 = CHR ''m'')")
      have dc2: "dc p2 = dc p"
        using hasSetsOrMore_dc [OF hs] dc1 by simp
      show ?thesis
      proof (cases b)
        case False
        with assms gp None True hs dc2 show ?thesis
          by (auto simp: addSeg_def)
      next
        case b: True
        let ?p4 = "p2\<lparr>pathStartX := points p2 ! 0, pathStartY := points p2 ! Suc 0, inPath := True,
                       dc := dc p @ [MoveTo (points p2 ! 0) (points p2 ! Suc 0)]\<rparr>"
        obtain cs where cs:
          "addSeg_lines 2 (length (points p1)) ?p4 = ?p4\<lparr>dc := dc ?p4 @ cs\<rparr>"
          "ClosePath \<notin> set cs"
          using addSeg_lines_dc by blast
        from assms gp None True hs b dc2 cs(1)
        have "dc q = dc p @ (MoveTo (points p2 ! 0) (points p2 ! Suc 0) # cs)" "r = None"
          by (auto simp: addSeg_def Let_def)
        with cs(2) show ?thesis
          by auto
      qed
    next
      case False
      with assms gp None dc1 show ?thesis
        by (auto simp: addSeg_def Let_def valsToAbs_def split: if_splits)
    qed
  qed
qed

lemma addSegs_dc:
  "addSegs L p segs = (r, q) \<Longrightarrow> \<exists>cs. dc q = dc p @ cs \<and> ClosePath \<notin> set cs"
proof (induction segs arbitrary: p)
  case Nil
  then show ?case by simp
next
  case (Cons seg segs)
  obtain e1 p1 where seg: "addSeg L p seg = (e1, p1)"
    by (cases "addSeg L p seg")
  from addSeg_dc [OF seg] obtain cs where cs: "dc p1 = dc p @ cs" "ClosePath \<notin> set cs"
    by blast
  show ?case
  proof (cases e1)
    case None
    with Cons.prems seg have "addSegs L p1 segs = (r, q)"
      by simp
    from Cons.IH [OF this] obtain cs' where "dc q = dc p1 @ cs'" "ClosePath \<notin> set cs'"
      by blast
    with cs have "dc q = dc p @ (cs @ cs') \<and> ClosePath \<notin> set (cs @ cs')"
      by simp
    then show ?thesis
      by blast
  next
    case (Some err)
    with Cons.prems seg have "q = p1"
      by simp
    with cs show ?thesis
      by blast
  qed
qed

lemma addSegs_append:
  "addSegs L p (xs @ ys) =
     (case addSegs L p xs of (Some e, q) \<Rightarrow> (Some e, q) | (None, q) \<Rightarrow> addSegs L q ys)"
proof (induction xs arbitrary: p)
  case Nil
  show ?case by simp
next
  case (Cons x xs)
  obtain e1 p1 where seg: "addSeg L p x = (e1, p1)"
    by (cases "addSeg L p x")
  with Cons.IH [of p1] show ?case
    by (cases e1) simp_all
qed

lemma addSegs_stops:
  "addSegs L p pre = (None, q) \<Longrightarrow> addSeg L q seg = (Some e, q')
     \<Longrightarrow> addSegs L p (pre @ seg # post) = (Some e, q')"
  by (simp add: addSegs_append)

lemma addSegs_error_split:
  "addSegs L p segs = (Some e, r) \<Longrightarrow>
   \<exists>pre seg post q. segs = pre @ seg # post \<and> addSegs L p pre = (None, q)
       \<and> addSeg L q seg = (Some e, r)"
proof (induction segs arbitrary: p)
  case Nil
  then show ?case by simp
next
  case (Cons x xs)
  obtain e1 p1 where seg: "addSeg L p x = (e1, p1)"
    by (cases "addSeg L p x")
  show ?case
  proof (cases e1)
    case None
    with Cons.prems seg have "addSegs L p1 xs = (Some e, r)"
      by simp
    from Cons.IH [OF this] obtain pre sg post q where
      "xs = pre @ sg # post" "addSegs L p1 pre = (None, q)" "addSeg L q sg = (Some e, r)"
      by blast
    with seg None have "x # xs = (x # pre) @ sg # post \<and> addSegs L p (x # pre) = (None, q)
        \<and> addSeg L q sg = (Some e, r)"
      by simp
    then show ?thesis
      by blast
  next
    case (Some err)
    with Cons.prems seg have "x # xs = [] @ x # xs \<and> addSegs L p [] = (None, p)
        \<and> addSeg L p x = (Some e, r)"
      by simp
    then show ?thesis
      by blast
  qed
qed

section \<open>One segment, by command letter\<close>

lemma addSeg_ClosePath:
  assumes gp: "GetPoints L p args = (None, q)" and k: "k = CHR ''z'' \<or> k = CHR ''Z''"
  shows "addSeg L p (k # args) =
           (if points q \<noteq> [] then (Some errParamMismatch, q)
            else (None, (if inPath p
                         then p\<lparr>placeX := pathStartX p, placeY := pathStartY p, inPath := False\<rparr>
                         else p)\<lparr>points := [], lastKey := k\<rparr>))"
proof (cases "points q = []")
  case True
  have "q = p\<lparr>points := points q\<rparr>"
    using frame_fields(10) [OF GetPoints_frame [OF gp]] .
  with True have "q = p\<lparr>points := []\<rparr>"
    by simp
  with gp have gp': "GetPoints L p args = (None, p\<lparr>points := []\<rparr>)"
    by simp
  from k True show ?thesis
    by (elim disjE) (simp_all add: addSeg_def gp')
next
  case False
  with k show ?thesis
    by (elim disjE) (simp_all add: addSeg_def gp)
qed

lemma addSeg_MoveTo_mismatch:
  assumes gp: "GetPoints L p args = (None, q)" and k: "k = CHR ''m'' \<or> k = CHR ''M''"
    and bad: "\<not> (2 \<le> length (points q) \<and> even (length (points q)))"
  shows "addSeg L p (k # args) = (Some errParamMismatch, q)"
proof -
  have hs: "hasSetsOrMore q 2 rel = (False, q)" for rel
    using bad by (auto simp: hasSetsOrMore_def even_iff_mod_2_eq_zero)
  from k show ?thesis
    by (elim disjE) (simp_all add: addSeg_def gp hs)
qed

lemma addSeg_MoveTo_ok:
  assumes gp: "GetPoints L p args = (None, q)" and k: "k = CHR ''m'' \<or> k = CHR ''M''"
    and good: "2 \<le> length (points q) \<and> even (length (points q))"
  shows "fst (addSeg L p (k # args)) = None"
proof -
  have "hasSetsOrMore q 2 rel = (True, if rel then pointsToAbs q 2 else q)" for rel
    using good by (auto simp: hasSetsOrMore_def even_iff_mod_2_eq_zero)
  then obtain q2 where hs: "hasSetsOrMore q 2 (k = CHR ''m'') = (True, q2)"
    by blast
  from k hs show ?thesis
    by (elim disjE) (simp_all add: addSeg_def gp Let_def)
qed

lemma addSeg_not_implemented:
  assumes gp: "GetPoints L p args = (None, q)" and k: "k \<in> set ''LlHhVvCcSsQqTtAa''"
  shows "fst (addSeg L p (k # args)) = Some errNotImplemented
         \<and> dc (snd (addSeg L p (k # args))) = dc p
         \<and> logged (snd (addSeg L p (k # args))) = logged p"
proof -
  note fr = frame_fields [OF GetPoints_frame [OF gp]]
  have *: "fst (addSeg L p (c # args)) = Some errNotImplemented
         \<and> dc (snd (addSeg L p (c # args))) = dc p
         \<and> logged (snd (addSeg L p (c # args))) = logged p"
    if "c = CHR ''L'' \<or> c = CHR ''l'' \<or> c = CHR ''H'' \<or> c = CHR ''h'' \<or> c = CHR ''V''
      \<or> c = CHR ''v'' \<or> c = CHR ''C'' \<or> c = CHR ''c'' \<or> c = CHR ''S'' \<or> c = CHR ''s''
      \<or> c = CHR ''Q'' \<or> c = CHR ''q'' \<or> c = CHR ''T'' \<or> c = CHR ''t'' \<or> c = CHR ''A''
      \<or> c = CHR ''a''" for c
    using that
    by (elim disjE) (simp_all add: addSeg_def gp valsToAbs_def fr(1,8))
  from k show ?thesis
    by (intro *) simp
qed

lemma addSeg_unknown:
  assumes gp: "GetPoints L p args = (None, q)" and k: "k \<notin> set ''zZmMlLvVhHqQtTcCsSaA''"
  shows "addSeg L p (k # args) =
           (if ErrorMode p = StrictErrorMode then (Some errCommandUnknown, q)
            else (None, q\<lparr>logged := (if ErrorMode p = WarnErrorMode
                                     then logged p @ [''Ignoring svg command '' @ string_of_byte k]
                                     else logged p),
                          lastKey := k\<rparr>))"
proof -
  note fr = frame_fields [OF GetPoints_frame [OF gp]]
  have "q\<lparr>logged := logged p\<rparr> = q"
    using fr(8) by simp
  then show ?thesis
    using k fr(2,8) by (simp add: addSeg_def gp)
qed

lemma addSeg_ParamMismatch_iff:
  assumes gp: "GetPoints L p args = (None, q)"
  shows "(fst (addSeg L p (k # args)) = Some errParamMismatch) =
           ((k = CHR ''m'' \<or> k = CHR ''M'')
              \<and> \<not> (2 \<le> length (points q) \<and> even (length (points q)))
            \<or> (k = CHR ''z'' \<or> k = CHR ''Z'') \<and> points q \<noteq> [])"
proof (cases "k = CHR ''z'' \<or> k = CHR ''Z''")
  case True
  then show ?thesis
    using addSeg_ClosePath [OF gp True] by auto
next
  case nz: False
  show ?thesis
  proof (cases "k = CHR ''m'' \<or> k = CHR ''M''")
    case True
    then show ?thesis
      using addSeg_MoveTo_mismatch [OF gp True] addSeg_MoveTo_ok [OF gp True] nz
      by (cases "2 \<le> length (points q) \<and> even (length (points q))") auto
  next
    case nm: False
    show ?thesis
    proof (cases "k \<in> set ''LlHhVvCcSsQqTtAa''")
      case True
      then show ?thesis
        using addSeg_not_implemented [OF gp True] nz nm by simp
    next
      case False
      with nz nm have "k \<notin> set ''zZmMlLvVhHqQtTcCsSaA''"
        by simp
      from addSeg_unknown [OF gp this] nz nm show ?thesis
        by simp
    qed
  qed
qed

lemma CompilePath_stops_at:
  assumes segs: "segments L s = pre @ seg # post"
    and pre: "addSegs L (init p) pre = (None, q)"
    and err: "addSeg L q seg = (Some e, q')"
  shows "CompilePath L p s = (Some e, q') \<and> dc q' = dc q
         \<and> (\<exists>cs. dc q' = dc p @ cs \<and> ClosePath \<notin> set cs)"
proof (intro conjI)
  have all: "addSegs L (init p) (segments L s) = (Some e, q')"
    using addSegs_stops [OF pre err] segs by simp
  then show "CompilePath L p s = (Some e, q')"
    by (simp add: CompilePath_segments)
  from addSeg_dc [OF err] show same: "dc q' = dc q"
    by auto
  from addSegs_dc [OF pre] obtain cs where "dc q = dc (init p) @ cs" "ClosePath \<notin> set cs"
    by blast
  with same show "\<exists>cs. dc q' = dc p @ cs \<and> ClosePath \<notin> set cs"
    by (auto simp: init_def)
qed

lemmas split_simps = segments_def command_positions_def range_string_ascii
  unicode_IsLetter_def substr_def

section \<open>The positions a range loop visits\<close>

lemma DecodeRune_width_pos: "s \<noteq> [] \<Longrightarrow> 0 < snd (DecodeRune s)"
  by (auto simp: DecodeRune_def Let_def split: list.splits)

lemma range_string_indices:
  "(j, r) \<in> set (range_string i s) \<Longrightarrow> i \<le> j \<and> j < i + length s"
proof (induction i s rule: range_string.induct)
  case (1 i s)
  show ?case
  proof (cases "s = []")
    case True
    with "1.prems" show ?thesis
      by simp
  next
    case False
    let ?w = "snd (DecodeRune s)"
    have w: "0 < ?w"
      using False by (rule DecodeRune_width_pos)
    from "1.prems" False
    have "(j, r) = (i, fst (DecodeRune s)) \<or> (j, r) \<in> set (range_string (i + ?w) (drop ?w s))"
      by (subst (asm) range_string.simps) simp
    then show ?thesis
    proof
      assume "(j, r) = (i, fst (DecodeRune s))"
      with False show ?thesis
        by (cases s) auto
    next
      assume "(j, r) \<in> set (range_string (i + ?w) (drop ?w s))"
      from "1.IH" [OF False this] w show ?thesis
        by auto
    qed
  qed
qed

lemma range_string_sorted: "sorted_wrt (<) (map fst (range_string i s))"
proof (induction i s rule: range_string.induct)
  case (1 i s)
  show ?case
  proof (cases "s = []")
    case True
    then show ?thesis
      by simp
  next
    case False
    let ?w = "snd (DecodeRune s)"
    have w: "0 < ?w"
      using False by (rule DecodeRune_width_pos)
    have later: "i < j" if "j \<in> fst ` set (range_string (i + ?w) (drop ?w s))" for j
    proof -
      from that obtain r where "(j, r) \<in> set (range_string (i + ?w) (drop ?w s))"
        by auto
      from range_string_indices [OF this] w show ?thesis
        by simp
    qed
    have "range_string i s
            = (i, fst (DecodeRune s)) # range_string (i + ?w) (drop ?w s)"
      using False by (subst range_string.simps) simp
    with "1.IH" [OF False] later show ?thesis
      by auto
  qed
qed

lemma command_positions_sorted: "sorted_wrt (<) (command_positions L s)"
proof -
  have "sorted_wrt (\<lambda>x y. fst x < fst y) (range_string 0 s)"
    using range_string_sorted [of 0 s] by (simp add: sorted_wrt_map)
  then show ?thesis
    unfolding command_positions_def sorted_wrt_map by (rule sorted_wrt_filter)
qed

lemma command_positions_bound: "i \<in> set (command_positions L s) \<Longrightarrow> i < length s"
  using range_string_indices [of i _ 0 s] by (auto simp: command_positions_def)

lemma segments_at_nonempty:
  "sorted_wrt (<) ps \<Longrightarrow> \<forall>i\<in>set ps. i < length s \<Longrightarrow> seg \<in> set (segments_at s ps)
     \<Longrightarrow> seg \<noteq> []"
proof (induction s ps rule: segments_at.induct)
  case (1 s)
  then show ?case by simp
next
  case (2 s i)
  then show ?case by simp
next
  case (3 s i j js)
  from "3.prems" have "i < j" "j < length s"
    by auto
  then have "substr s i j \<noteq> []"
    by (simp add: substr_def)
  with 3 show ?case
    by auto
qed

lemma segments_nonempty: "seg \<in> set (segments L s) \<Longrightarrow> seg \<noteq> []"
  unfolding segments_def
  using segments_at_nonempty [OF command_positions_sorted] command_positions_bound
  by blast

lemma CompilePath_ParamMismatch_iff:
  "(fst (CompilePath L p s) = Some errParamMismatch) =
     (\<exists>pre k args post q q'.
        segments L s = pre @ (k # args) # post
        \<and> addSegs L (init p) pre = (None, q)
        \<and> GetPoints L q args = (None, q')
        \<and> ((k = CHR ''m'' \<or> k = CHR ''M'')
              \<and> \<not> (2 \<le> length (points q') \<and> even (length (points q')))
            \<or> (k = CHR ''z'' \<or> k = CHR ''Z'') \<and> points q' \<noteq> []))"
  (is "?lhs = ?rhs")
proof
  assume ?lhs
  obtain e1 q0 where all: "addSegs L (init p) (segments L s) = (e1, q0)"
    by (cases "addSegs L (init p) (segments L s)")
  with \<open>?lhs\<close> have "e1 = Some errParamMismatch"
    by (auto simp: CompilePath_segments split: option.splits)
  with all addSegs_error_split obtain pre seg post q where
    segs: "segments L s = pre @ seg # post" and pre: "addSegs L (init p) pre = (None, q)"
    and err: "addSeg L q seg = (Some errParamMismatch, q0)"
    by blast
  from segs have "seg \<in> set (segments L s)"
    by simp
  then have "seg \<noteq> []"
    by (rule segments_nonempty)
  then obtain k args where seg: "seg = k # args"
    by (cases seg) auto
  obtain e2 q' where gp: "GetPoints L q args = (e2, q')"
    by (cases "GetPoints L q args")
  have "e2 = None"
  proof (cases e2)
    case None
    then show ?thesis .
  next
    case (Some e)
    with gp have "addSeg L q (k # args) = (Some e, q')"
      by (simp add: addSeg_GetPoints_error)
    with err seg have "e = errParamMismatch"
      by simp
    moreover from gp Some GetPoints_error obtain t where "e = NumError t"
      by blast
    ultimately show ?thesis
      by simp
  qed
  with gp have gp': "GetPoints L q args = (None, q')"
    by simp
  from err seg addSeg_ParamMismatch_iff [OF gp', of k]
  have "(k = CHR ''m'' \<or> k = CHR ''M'')
              \<and> \<not> (2 \<le> length (points q') \<and> even (length (points q')))
            \<or> (k = CHR ''z'' \<or> k = CHR ''Z'') \<and> points q' \<noteq> []"
    by simp
  with segs seg pre gp' show ?rhs
    by blast
next
  assume ?rhs
  then obtain pre k args post q q' where
    segs: "segments L s = pre @ (k # args) # post"
    and pre: "addSegs L (init p) pre = (None, q)"
    and gp: "GetPoints L q args = (None, q')"
    and bad: "(k = CHR ''m'' \<or> k = CHR ''M'')
              \<and> \<not> (2 \<le> length (points q') \<and> even (length (points q')))
            \<or> (k = CHR ''z'' \<or> k = CHR ''Z'') \<and> points q' \<noteq> []"
    by blast
  from bad addSeg_ParamMismatch_iff [OF gp, of k]
  have "fst (addSeg L q (k # args)) = Some errParamMismatch"
    by simp
  then obtain r where "addSeg L q (k # args) = (Some errParamMismatch, r)"
    by (cases "addSeg L q (k # args)") auto
  from addSegs_stops [OF pre this] segs
  have "addSegs L (init p) (segments L s) = (Some errParamMismatch, r)"
    by simp
  then show ?lhs
    by (simp add: CompilePath_segments)
qed

lemma CompilePath_through:
  assumes segs: "segments L s = pre @ seg # post"
    and pre: "addSegs L (init p0) pre = (None, p)"
  shows "CompilePath L p0 s =
           (case addSeg L p seg of
              (Some e, r) \<Rightarrow> (Some e, r)
            | (None, r) \<Rightarrow>
                (case addSegs L r post of
                   (Some e, r') \<Rightarrow> (Some e, r')
                 | (None, r') \<Rightarrow> (None, r'\<lparr>dc := dc r' @ [ClosePath]\<rparr>)))"
proof -
  obtain e1 r where seg: "addSeg L p seg = (e1, r)"
    by (cases "addSeg L p seg")
  show ?thesis
    unfolding CompilePath_segments segs addSegs_append pre
    by (cases e1) (simp_all add: seg)
qed

section \<open>ASCII bytes in arbitrary text\<close>

lemma DecodeRune_cases:
  assumes "DecodeRune (c # t) = (r, w)"
  shows "w = 1 \<and> (byte c < 0x80 \<and> r = byte c \<or> r = RuneError)
    \<or> w = 2 \<and> r = (byte c mod 32) * 64 + byte ((c # t) ! 1) mod 64
        \<and> 0xC2 \<le> byte c \<and> byte c < 0xE0 \<and> 0x80 \<le> byte ((c # t) ! 1)
    \<or> w = 3 \<and> r = (byte c mod 16) * 4096 + (byte ((c # t) ! 1) mod 64) * 64
                      + byte ((c # t) ! 2) mod 64
        \<and> 0xE0 \<le> byte c \<and> byte c < 0xF0
        \<and> (byte c = 0xE0 \<longrightarrow> 0xA0 \<le> byte ((c # t) ! 1) \<and> byte ((c # t) ! 1) \<le> 0xBF)
        \<and> 0x80 \<le> byte ((c # t) ! 1) \<and> 0x80 \<le> byte ((c # t) ! 2)
    \<or> w = 4 \<and> r = (byte c mod 8) * 262144 + (byte ((c # t) ! 1) mod 64) * 4096
                      + (byte ((c # t) ! 2) mod 64) * 64 + byte ((c # t) ! 3) mod 64
        \<and> 0xF0 \<le> byte c \<and> byte c \<le> 0xF4
        \<and> (byte c = 0xF0 \<longrightarrow> 0x90 \<le> byte ((c # t) ! 1) \<and> byte ((c # t) ! 1) \<le> 0xBF)
        \<and> 0x80 \<le> byte ((c # t) ! 1) \<and> 0x80 \<le> byte ((c # t) ! 2)
        \<and> 0x80 \<le> byte ((c # t) ! 3)"
  using assms unfolding DecodeRune_def Let_def list.case
  by (simp split: if_splits)

lemma DecodeRune_continuation:
  assumes d: "DecodeRune s = (r, w)" and j: "0 < j" "j < w"
  shows "0x80 \<le> byte (s ! j)"
proof (cases s)
  case Nil
  with d j show ?thesis
    by (simp add: DecodeRune_def)
next
  case (Cons c t)
  from j have "j = 1 \<or> j = 2 \<or> j = 3 \<or> 4 \<le> j"
    by arith
  with DecodeRune_cases [OF d [unfolded Cons]] j Cons show ?thesis
    by (elim disjE conjE) simp_all
qed

lemma DecodeRune_ascii_rune:
  assumes d: "DecodeRune (c # t) = (r, w)" and r: "r < 0x80"
  shows "r = byte c"
proof -
  have two: "0x80 \<le> (x mod 32) * 64 + y" if "0xC2 \<le> x" "x < 0xE0" for x y :: nat
  proof -
    have "2 \<le> x mod 32"
      using that by presburger
    then show ?thesis
      by simp
  qed
  have three: "0x80 \<le> (x mod 16) * 4096 + (y mod 64) * 64 + z"
    if "0xE0 \<le> x" "x < 0xF0" "x = 0xE0 \<longrightarrow> 0xA0 \<le> y \<and> y \<le> 0xBF" for x y z :: nat
  proof (cases "x = 0xE0")
    case True
    with that have "32 \<le> y mod 64"
      by presburger
    then show ?thesis
      by simp
  next
    case False
    with that have "1 \<le> x mod 16"
      by presburger
    then show ?thesis
      by simp
  qed
  have four: "0x80 \<le> (x mod 8) * 262144 + (y mod 64) * 4096 + z"
    if "0xF0 \<le> x" "x \<le> 0xF4" "x = 0xF0 \<longrightarrow> 0x90 \<le> y \<and> y \<le> 0xBF" for x y z :: nat
  proof (cases "x = 0xF0")
    case True
    with that have "16 \<le> y mod 64"
      by presburger
    then show ?thesis
      by simp
  next
    case False
    with that have "1 \<le> x mod 8"
      by presburger
    then show ?thesis
      by simp
  qed
  from DecodeRune_cases [OF d] show ?thesis
  proof (elim disjE conjE)
    assume "byte c < 0x80" "r = byte c"
    then show ?thesis
      by simp
  next
    assume "r = RuneError"
    with r show ?thesis
      by (simp add: RuneError_def)
  next
    assume "r = (byte c mod 32) * 64 + byte ((c # t) ! 1) mod 64" "0xC2 \<le> byte c"
      "byte c < 0xE0"
    with two [of "byte c" "byte ((c # t) ! 1) mod 64"] r show ?thesis
      by simp
  next
    assume "r = (byte c mod 16) * 4096 + (byte ((c # t) ! 1) mod 64) * 64
                      + byte ((c # t) ! 2) mod 64"
      "0xE0 \<le> byte c" "byte c < 0xF0"
      "byte c = 0xE0 \<longrightarrow> 0xA0 \<le> byte ((c # t) ! 1) \<and> byte ((c # t) ! 1) \<le> 0xBF"
    with three [of "byte c" "byte ((c # t) ! 1)" "byte ((c # t) ! 2) mod 64"] r show ?thesis
      by simp
  next
    assume "r = (byte c mod 8) * 262144 + (byte ((c # t) ! 1) mod 64) * 4096
                      + (byte ((c # t) ! 2) mod 64) * 64 + byte ((c # t) ! 3) mod 64"
      "0xF0 \<le> byte c" "byte c \<le> 0xF4"
      "byte c = 0xF0 \<longrightarrow> 0x90 \<le> byte ((c # t) ! 1) \<and> byte ((c # t) ! 1) \<le> 0xBF"
    with four [of "byte c" "byte ((c # t) ! 1)"
        "(byte ((c # t) ! 2) mod 64) * 64 + byte ((c # t) ! 3) mod 64"] r
    show ?thesis
      by simp
  qed
qed

lemma range_string_ascii_split:
  assumes c: "byte c < 0x80"
  shows "\<exists>pre. range_string i (a @ c # rest)
             = pre @ (i + length a, byte c) # range_string (Suc (i + length a)) rest
           \<and> (\<forall>x \<in> set pre. snd x < 0x80 \<longrightarrow> snd x \<in> byte ` set a)"
proof (induction "length a" arbitrary: a i rule: less_induct)
  case less
  show ?case
  proof (cases a)
    case Nil
    have "range_string i (a @ c # rest)
             = [] @ (i + length a, byte c) # range_string (Suc (i + length a)) rest"
      using c Nil by (simp add: range_string_ascii)
    moreover have "\<forall>x \<in> set []. snd x < 0x80 \<longrightarrow> snd x \<in> byte ` set a"
      by simp
    ultimately show ?thesis
      by (rule_tac x = "[]" in exI) (rule conjI)
  next
    case (Cons x a')
    let ?s = "a @ c # rest"
    obtain r w where d: "DecodeRune ?s = (r, w)"
      by (cases "DecodeRune ?s")
    have "?s \<noteq> []"
      by simp
    then have "0 < snd (DecodeRune ?s)"
      by (rule DecodeRune_width_pos)
    with d have w0: "0 < w"
      by simp
    have wa: "w \<le> length a"
    proof (rule ccontr)
      assume "\<not> w \<le> length a"
      then have lt: "length a < w" and pos: "0 < length a"
        using Cons by simp_all
      have "0x80 \<le> byte (?s ! length a)"
        using d pos lt by (rule DecodeRune_continuation)
      moreover have "?s ! length a = c"
        by (simp add: nth_append)
      ultimately show False
        using c by simp
    qed
    have dr: "drop w ?s = drop w a @ c # rest"
      using wa by simp
    have "range_string i ?s
           = (i, fst (DecodeRune ?s)) # range_string (i + snd (DecodeRune ?s)) (drop (snd (DecodeRune ?s)) ?s)"
      using \<open>?s \<noteq> []\<close> by (subst range_string.simps) (simp only: if_False)
    then have step: "range_string i ?s = (i, r) # range_string (i + w) (drop w a @ c # rest)"
      unfolding d fst_conv snd_conv dr .
    have shorter: "length (drop w a) < length a"
      using w0 Cons by simp
    have idx: "i + w + length (drop w a) = i + length a"
      using wa by simp
    from less [OF shorter, of "i + w"] obtain pre where
      pre: "range_string (i + w) (drop w a @ c # rest)
             = pre @ (i + w + length (drop w a), byte c)
                 # range_string (Suc (i + w + length (drop w a))) rest"
      and runes: "\<forall>x \<in> set pre. snd x < 0x80 \<longrightarrow> snd x \<in> byte ` set (drop w a)"
      by (elim exE conjE)
    have eq: "range_string i ?s
             = ((i, r) # pre) @ (i + length a, byte c) # range_string (Suc (i + length a)) rest"
      unfolding step pre idx by simp
    have r: "r < 0x80 \<longrightarrow> r \<in> byte ` set a"
    proof
      assume "r < 0x80"
      moreover have "DecodeRune (x # a' @ c # rest) = (r, w)"
        using d Cons by simp
      ultimately have "r = byte x"
        by (rule DecodeRune_ascii_rune [rotated])
      then show "r \<in> byte ` set a"
        using Cons by simp
    qed
    have "snd y < 0x80 \<longrightarrow> snd y \<in> byte ` set a" if y: "y \<in> set ((i, r) # pre)" for y
    proof (cases "y = (i, r)")
      case True
      with r show ?thesis
        by simp
    next
      case False
      with y have "y \<in> set pre"
        by simp
      with runes have "snd y < 0x80 \<longrightarrow> snd y \<in> byte ` set (drop w a)"
        by (rule_tac bspec)
      moreover have "set (drop w a) \<subseteq> set a"
        by (rule set_drop_subset)
      ultimately show ?thesis
        by (simp add: image_iff) (meson subsetD)
    qed
    then have "\<forall>y \<in> set ((i, r) # pre). snd y < 0x80 \<longrightarrow> snd y \<in> byte ` set a"
      by (rule ballI)
    with eq show ?thesis
      by (rule_tac x = "(i, r) # pre" in exI) (rule conjI)
  qed
qed

section \<open>ReadFloat and the second decimal point\<close>

lemma ReadFloat_loop_skip:
  "\<forall>x \<in> set pre. snd x \<noteq> rune_of CHR ''.'' \<Longrightarrow>
   ReadFloat_loop L s (pre @ xs) lst f p = ReadFloat_loop L s xs lst f p"
proof (induction pre)
  case Nil
  show ?case by simp
next
  case (Cons x pre)
  obtain i n where x: "x = (i, n)"
    by (cases x)
  with Cons.prems have "n \<noteq> rune_of CHR ''.''"
    by simp
  with x Cons show ?case
    by simp
qed

lemma range_string_shift:
  "range_string (k + i) t = map (\<lambda>(j, r). (k + j, r)) (range_string i t)"
proof (induction i t rule: range_string.induct)
  case (1 i s)
  show ?case
  proof (cases "s = []")
    case True
    then show ?thesis
      by simp
  next
    case False
    have a: "range_string (k + i) s
           = (k + i, fst (DecodeRune s))
               # range_string (k + i + snd (DecodeRune s)) (drop (snd (DecodeRune s)) s)"
      using False by (subst range_string.simps) (simp only: if_False)
    have b: "range_string i s
           = (i, fst (DecodeRune s))
               # range_string (i + snd (DecodeRune s)) (drop (snd (DecodeRune s)) s)"
      using False by (subst range_string.simps) (simp only: if_False)
    show ?thesis
      unfolding a b using "1.IH" [OF False] by (simp add: add.assoc)
  qed
qed

lemma ReadFloat_loop_shift:
  "ReadFloat_loop L (u @ s) (map (\<lambda>(j, r). (length u + j, r)) xs) (length u + lst) f p
     = (case ReadFloat_loop L s xs lst f p of (e, l, p') \<Rightarrow> (e, length u + l, p'))"
proof (induction xs arbitrary: lst f p)
  case Nil
  show ?case by simp
next
  case (Cons x xs)
  obtain i n where x: "x = (i, n)"
    by (cases x)
  have sub: "substr (u @ s) (length u + lst) (length u + i) = substr s lst i"
    by (simp add: substr_def)
  show ?case
  proof (cases "n = rune_of CHR ''.'' \<and> \<not> f")
    case True
    then show ?thesis
      using x sub Cons.IH by (cases "parseFloat L (substr s lst i)") simp_all
  next
    case False
    then show ?thesis
      using x Cons.IH by auto
  qed
qed

lemma ReadFloat_second_point:
  assumes a: "CHR ''.'' \<notin> set a" and b: "CHR ''.'' \<notin> set b"
  shows "ReadFloat L p (a @ ''.'' @ b @ ''.'' @ c)
           = (case parseFloat L (a @ ''.'' @ b) of
                Inl err \<Rightarrow> (Some err, p)
              | Inr f \<Rightarrow> ReadFloat L (p\<lparr>points := points p @ [f]\<rparr>) (''.'' @ c))"
proof -
  let ?u = "a @ CHR ''.'' # b"
  let ?N = "?u @ CHR ''.'' # c"
  have dot: "byte CHR ''.'' < 0x80"
    by simp
  have nodot: "\<forall>x \<in> set pre. snd x \<noteq> rune_of CHR ''.''"
    if "\<forall>x \<in> set pre. snd x < 0x80 \<longrightarrow> snd x \<in> byte ` set t" "CHR ''.'' \<notin> set t"
    for pre :: "(nat \<times> rune) list" and t
  proof
    fix x assume "x \<in> set pre"
    with that(1) have ascii: "snd x < 0x80 \<longrightarrow> snd x \<in> byte ` set t"
      by (rule_tac bspec)
    show "snd x \<noteq> rune_of CHR ''.''"
    proof
      assume e: "snd x = rune_of CHR ''.''"
      then have "snd x < 0x80"
        by simp
      with ascii obtain c' where "c' \<in> set t" "snd x = byte c'"
        by auto
      with e have "byte c' = byte CHR ''.''"
        by simp
      then have "c' = CHR ''.''"
        by (simp only: of_char_eq_iff)
      with \<open>c' \<in> set t\<close> that(2) show False
        by simp
    qed
  qed
  from range_string_ascii_split [OF dot, of 0 a "b @ CHR ''.'' # c"] obtain preA where
    A: "range_string 0 ?N
          = preA @ (length a, rune_of CHR ''.'') # range_string (Suc (length a)) (b @ CHR ''.'' # c)"
    and rA: "\<forall>x \<in> set preA. snd x < 0x80 \<longrightarrow> snd x \<in> byte ` set a"
    by (elim exE conjE) simp
  from range_string_ascii_split [OF dot, of "Suc (length a)" b c] obtain preB where
    B: "range_string (Suc (length a)) (b @ CHR ''.'' # c)
          = preB @ (length ?u, rune_of CHR ''.'') # range_string (Suc (length ?u)) c"
    and rB: "\<forall>x \<in> set preB. snd x < 0x80 \<longrightarrow> snd x \<in> byte ` set b"
    by (elim exE conjE) simp
  have loop: "ReadFloat_loop L ?N (range_string 0 ?N) 0 True p
      = (case parseFloat L ?u of
           Inl err \<Rightarrow> (Some err, 0, p)
         | Inr f \<Rightarrow> ReadFloat_loop L ?N (range_string (Suc (length ?u)) c) (length ?u) False
                      (p\<lparr>points := points p @ [f]\<rparr>))"
    unfolding A B
    by (cases "parseFloat L ?u")
       (simp_all add: ReadFloat_loop_skip [OF nodot [OF rA a]]
          ReadFloat_loop_skip [OF nodot [OF rB b]] substr_def)
  have sh: "ReadFloat_loop L ?N (range_string (Suc (length ?u)) c) (length ?u) False q
      = (case ReadFloat_loop L (CHR ''.'' # c) (range_string (Suc 0) c) 0 False q of
           (e, l, p') \<Rightarrow> (e, length ?u + l, p'))" for q
    using ReadFloat_loop_shift [of L ?u "CHR ''.'' # c" "range_string (Suc 0) c" 0 False q]
      range_string_shift [of "length ?u" "Suc 0" c]
    by simp
  have rhs: "ReadFloat L q (CHR ''.'' # c)
      = (case ReadFloat_loop L (CHR ''.'' # c) (range_string (Suc 0) c) 0 False q of
           (Some err, lst, p') \<Rightarrow> (Some err, p')
         | (None, lst, p') \<Rightarrow>
             (case parseFloat L (drop lst (CHR ''.'' # c)) of
                Inl err \<Rightarrow> (Some err, p')
              | Inr f \<Rightarrow> (None, p'\<lparr>points := points p' @ [f]\<rparr>)))" for q
    by (simp add: ReadFloat_def range_string_ascii)
  show ?thesis
  proof (cases "parseFloat L ?u")
    case (Inl err)
    then show ?thesis
      using loop by (simp add: ReadFloat_def)
  next
    case (Inr v)
    let ?q = "p\<lparr>points := points p @ [v]\<rparr>"
    obtain e l p' where r: "ReadFloat_loop L (CHR ''.'' # c) (range_string (Suc 0) c) 0 False ?q
        = (e, l, p')"
      using prod_cases3 by blast
    have "ReadFloat L p ?N = ReadFloat L ?q (CHR ''.'' # c)"
      unfolding rhs r
      using loop Inr sh [of ?q] r by (cases e) (simp_all add: ReadFloat_def)
    with Inr show ?thesis
      by simp
  qed
qed

section \<open>Text without a boundary\<close>








section \<open>Relative pairs\<close>

lemma length_rel_pairs: "length (rel_pairs lastX lastY pts) = length pts"
  by (induction lastX lastY pts rule: rel_pairs.induct) simp_all

lemma pointsToAbs_inner_pair:
  "pointsToAbs_inner 2 j 0 lastX lastY pts
     = pts[j := pts ! j + lastX, Suc j := pts ! Suc j + lastY]"
  by (simp add: pointsToAbs_inner_step pointsToAbs_inner_stop)

lemma pointsToAbs_outer_pairs:
  "even (length pts) \<Longrightarrow>
   pointsToAbs_outer 2 (length pre) lastX lastY (pre @ pts) = pre @ rel_pairs lastX lastY pts"
proof (induction lastX lastY pts arbitrary: pre rule: rel_pairs.induct)
  case (1 lastX lastY x y rest)
  let ?j = "length pre"
  let ?pts' = "pre @ (x + lastX) # (y + lastY) # rest"
  have inner: "pointsToAbs_inner 2 ?j 0 lastX lastY (pre @ x # y # rest) = ?pts'"
    by (simp add: pointsToAbs_inner_pair nth_append list_update_append)
  have ev: "even (length rest)"
    using "1.prems" by simp
  have "pointsToAbs_outer 2 ?j lastX lastY (pre @ x # y # rest)
      = pointsToAbs_outer 2 (?j + 2) (?pts' ! ((?j + 2) - 2)) (?pts' ! ((?j + 2) - 1)) ?pts'"
    by (subst pointsToAbs_outer.simps) (simp add: inner Let_def)
  also have "\<dots> = pointsToAbs_outer 2 (length (pre @ [x + lastX, y + lastY]))
                    (x + lastX) (y + lastY) ((pre @ [x + lastX, y + lastY]) @ rest)"
    by (simp add: nth_append)
  also have "\<dots> = (pre @ [x + lastX, y + lastY]) @ rel_pairs (x + lastX) (y + lastY) rest"
    by (rule "1.IH" [OF ev])
  finally show ?case
    by simp
qed (simp_all add: pointsToAbs_outer_stop)

lemma pointsToAbs_pairs:
  "even (length (points p)) \<Longrightarrow>
   pointsToAbs p 2 = p\<lparr>points := rel_pairs (placeX p) (placeY p) (points p)\<rparr>"
  using pointsToAbs_outer_pairs [of "points p" "[]" "placeX p" "placeY p"]
  by (simp add: pointsToAbs_def)

lemma last_butlast_pair:
  "last (butlast (x # y # rest)) = (x # y # rest) ! length rest"
  by (induction rest arbitrary: x y) simp_all

lemma last_pair:
  "(x # y # rest) ! (length (x # y # rest) - 2) = last (butlast (x # y # rest))"
  "(x # y # rest) ! (length (x # y # rest) - Suc 0) = last (x # y # rest)"
proof -
  show "(x # y # rest) ! (length (x # y # rest) - 2) = last (butlast (x # y # rest))"
    unfolding last_butlast_pair by simp
  have "x # y # rest \<noteq> []"
    by simp
  then have "last (x # y # rest) = (x # y # rest) ! (length (x # y # rest) - 1)"
    by (rule last_conv_nth)
  then show "(x # y # rest) ! (length (x # y # rest) - Suc 0) = last (x # y # rest)"
    by simp
qed

lemma addSeg_MoveTo_rel:
  assumes gp: "GetPoints L p args = (None, q)"
    and pts: "points q = x # y # rest" and ev: "even (length rest)"
  shows "addSeg L p (CHR ''m'' # args) =
           (None, q\<lparr>points := (x + placeX p) # (y + placeY p)
                               # rel_pairs (x + placeX p) (y + placeY p) rest,
                    pathStartX := x + placeX p, pathStartY := y + placeY p, inPath := True,
                    dc := dc p @ MoveTo (x + placeX p) (y + placeY p)
                            # line_calls (rel_pairs (x + placeX p) (y + placeY p) rest),
                    placeX := last (butlast ((x + placeX p) # (y + placeY p)
                               # rel_pairs (x + placeX p) (y + placeY p) rest)),
                    placeY := last ((x + placeX p) # (y + placeY p)
                               # rel_pairs (x + placeX p) (y + placeY p) rest),
                    lastKey := CHR ''m''\<rparr>)"
proof -
  note fr = frame_fields [OF GetPoints_frame [OF gp]]
  let ?X = "x + placeX p" and ?Y = "y + placeY p"
  let ?R = "rel_pairs (x + placeX p) (y + placeY p) rest"
  let ?A = "?X # ?Y # ?R"
  let ?qa = "q\<lparr>points := ?A\<rparr>"
  have len: "length (points q) = Suc (Suc (length rest))"
    using pts by simp
  have lenA: "length ?A = length (points q)"
    using len by (simp add: length_rel_pairs)
  have "pointsToAbs q 2 = ?qa"
    using ev len pts fr(4,5) by (simp add: pointsToAbs_pairs)
  then have hs: "hasSetsOrMore q 2 True = (True, ?qa)"
    using ev len by (simp add: hasSetsOrMore_def)
  let ?q4 = "?qa\<lparr>pathStartX := ?X, pathStartY := ?Y, inPath := True,
                  dc := dc p @ [MoveTo ?X ?Y]\<rparr>"
  have lines: "addSeg_lines 2 (length (points q)) ?q4
                 = ?q4\<lparr>dc := dc ?q4 @ line_calls (drop 2 (points ?q4))\<rparr>"
    by (rule addSeg_lines_eq) (simp add: len length_rel_pairs)
  have lx: "?A ! (length (points q) - 2) = last (butlast ?A)"
    using last_pair(1) [of ?X ?Y ?R] unfolding lenA .
  have ly: "?A ! (length (points q) - Suc 0) = last ?A"
    using last_pair(2) [of ?X ?Y ?R] unfolding lenA .
  show ?thesis
    unfolding addSeg_def
    using lx ly by (simp add: gp hs Let_def lines fr(1))
qed

section \<open>The second decimal point of a number\<close>

text \<open>
  C1. In the text of a number, a decimal point that comes after an already-seen decimal
  point ends the number read so far and starts a new one at that point: for any bytes
  \<open>a\<close> and \<open>b\<close> without a point, \<open>ReadFloat\<close> on \<open>a.b.c\<close> converts \<open>a.b\<close>, appends its value
  to the buffer, and continues as \<open>ReadFloat\<close> on \<open>.c\<close> (where the next point splits again).
  In particular the text \<open>1.5.5\<close> tokenizes to exactly the two values 1.5 and 0.5.
\<close>

theorem C1_second_decimal_point:
  "(CHR ''.'' \<notin> set a \<and> CHR ''.'' \<notin> set b \<longrightarrow>
      ReadFloat L p (a @ ''.'' @ b @ ''.'' @ c)
        = (case parseFloat L (a @ ''.'' @ b) of
             Inl err \<Rightarrow> (Some err, p)
           | Inr f \<Rightarrow> ReadFloat L (p\<lparr>points := points p @ [f]\<rparr>) (''.'' @ c)))
   \<and> GetPoints L p ''1.5.5'' = (None, p\<lparr>points := [3 / 2, 1 / 2]\<rparr>)"
proof (intro conjI impI)
  assume "CHR ''.'' \<notin> set a \<and> CHR ''.'' \<notin> set b"
  then have a: "CHR ''.'' \<notin> set a" and b: "CHR ''.'' \<notin> set b"
    by simp_all
  show "ReadFloat L p (a @ ''.'' @ b @ ''.'' @ c)
        = (case parseFloat L (a @ ''.'' @ b) of
             Inl err \<Rightarrow> (Some err, p)
           | Inr f \<Rightarrow> ReadFloat L (p\<lparr>points := points p @ [f]\<rparr>) (''.'' @ c))"
    by (rule ReadFloat_second_point [OF a b])
next
  show "GetPoints L p ''1.5.5'' = (None, p\<lparr>points := [3 / 2, 1 / 2]\<rparr>)"
    by (simp add: eval_simps)
qed

theorem C1_second_decimal_point_witness:
  "CHR ''.'' \<notin> set ''1'' \<and> CHR ''.'' \<notin> set ''5''
   \<and> parseFloat ascii_lib ''1.5'' = Inr (3 / 2)
   \<and> ReadFloat ascii_lib (NewParser []) ''1.5.5''
       = ReadFloat ascii_lib ((NewParser [])\<lparr>points := [3 / 2]\<rparr>) ''.5''
   \<and> ReadFloat ascii_lib (NewParser []) ''1.5.5''
       = (None, (NewParser [])\<lparr>points := [3 / 2, 1 / 2]\<rparr>)"
proof -
  have h: "CHR ''.'' \<notin> set ''1'' \<and> CHR ''.'' \<notin> set ''5''"
    by simp
  have pf: "parseFloat ascii_lib ''1.5'' = Inr (3 / 2)"
    by (simp add: parseFloat_tokens)
  from C1_second_decimal_point [where L = ascii_lib and p = "NewParser []" and a = "''1''"
      and b = "''5''" and c = "''5''"] h
  have "ReadFloat ascii_lib (NewParser []) (''1'' @ ''.'' @ ''5'' @ ''.'' @ ''5'')
        = (case parseFloat ascii_lib (''1'' @ ''.'' @ ''5'') of
             Inl err \<Rightarrow> (Some err, NewParser [])
           | Inr f \<Rightarrow> ReadFloat ascii_lib ((NewParser [])\<lparr>points := points (NewParser []) @ [f]\<rparr>)
                       (''.'' @ ''5''))"
    by blast
  then have r: "ReadFloat ascii_lib (NewParser []) ''1.5.5''
       = ReadFloat ascii_lib ((NewParser [])\<lparr>points := [3 / 2]\<rparr>) ''.5''"
    by (simp add: pf NewParser_def)
  have "ReadFloat ascii_lib ((NewParser [])\<lparr>points := [3 / 2]\<rparr>) ''.5''
      = (None, (NewParser [])\<lparr>points := [3 / 2, 1 / 2]\<rparr>)"
    by (simp add: eval_simps NewParser_def)
  with h pf r show ?thesis
    by simp
qed

section \<open>The exponent marker and the sign after it\<close>



section \<open>The uppercase exponent marker\<close>

text \<open>
  C3 claims that the uppercase exponent marker \<open>E\<close> is treated like the lowercase
  \<open>e\<close>, so that a number with an uppercase exponent is split and tokenized as its
  lowercase equivalent. The code does not do that: the splitter excludes only the
  lowercase \<open>e\<close> from the command letters, and the tokenizer excepts only the lowercase
  \<open>e\<close> from the boundaries. So \<open>"M1E2 3"\<close> is cut at \<open>E\<close> into the segments \<open>M1\<close> and
  \<open>E2 3\<close> and fails with \<open>errParamMismatch\<close> before any call to the sink, where
  \<open>"M1e2 3"\<close> is one segment that emits move(100,3); and the tokenizer reads \<open>1E2 3\<close> as
  the three values 1, 2, 3 where it reads \<open>1e2 3\<close> as 100, 3.
\<close>

theorem C3_uppercase_exponent:
  "CompilePath L p ''M1E2 3'' = (Some errParamMismatch, (init p)\<lparr>points := [1]\<rparr>)
   \<and> CompilePath L p ''M1e2 3''
       = (None, p\<lparr>placeX := 100, placeY := 3, pathStartX := 100, pathStartY := 3,
                  points := [100, 3], lastKey := CHR ''M'', inPath := True,
                  dc := dc p @ [MoveTo 100 3, ClosePath]\<rparr>)
   \<and> segments L ''M1E2 3'' = [''M1'', ''E2 3'']
   \<and> segments L ''M1e2 3'' = [''M1e2 3'']
   \<and> GetPoints L p ''1E2 3'' = (None, p\<lparr>points := [1, 2, 3]\<rparr>)
   \<and> GetPoints L p ''1e2 3'' = (None, p\<lparr>points := [100, 3]\<rparr>)"
proof (intro conjI)
  show "CompilePath L p ''M1E2 3'' = (Some errParamMismatch, (init p)\<lparr>points := [1]\<rparr>)"
    by (simp add: eval_simps)
  show "CompilePath L p ''M1e2 3''
       = (None, p\<lparr>placeX := 100, placeY := 3, pathStartX := 100, pathStartY := 3,
                  points := [100, 3], lastKey := CHR ''M'', inPath := True,
                  dc := dc p @ [MoveTo 100 3, ClosePath]\<rparr>)"
    by (simp add: eval_simps)
  show "segments L ''M1E2 3'' = [''M1'', ''E2 3'']"
    by (simp add: split_simps)
  show "segments L ''M1e2 3'' = [''M1e2 3'']"
    by (simp add: split_simps)
  show "GetPoints L p ''1E2 3'' = (None, p\<lparr>points := [1, 2, 3]\<rparr>)"
    by (simp add: eval_simps)
  show "GetPoints L p ''1e2 3'' = (None, p\<lparr>points := [100, 3]\<rparr>)"
    by (simp add: eval_simps)
qed

section \<open>MoveTo with several pairs, then ClosePath\<close>

text \<open>
  C4. \<open>CompilePath("M75 0, 0 200, 150 200 Z")\<close> emits exactly move(75,0), line(0,200),
  line(150,200), close(), and leaves the cursor at (75,0). More generally, for an absolute
  MoveTo whose argument text tokenizes to the pairs \<open>x y\<close> and \<open>rest\<close>: the first pair
  emits a move and becomes the path start, each further pair emits a line, the cursor is
  the last pair; a ClosePath that follows emits nothing and puts the cursor back on the
  path start \<open>(x, y)\<close>.
\<close>

theorem C4_moveto_lines_close:
  "CompilePath L p ''M75 0, 0 200, 150 200 Z''
     = (None, p\<lparr>placeX := 75, placeY := 0, pathStartX := 75, pathStartY := 0, points := [],
                lastKey := CHR ''Z'', inPath := False,
                dc := dc p @ [MoveTo 75 0, LineTo 0 200, LineTo 150 200, ClosePath]\<rparr>)
   \<and> (GetPoints L p args = (None, q) \<and> points q = x # y # rest \<and> even (length rest) \<longrightarrow>
        addSeg L p (CHR ''M'' # args)
          = (None, q\<lparr>pathStartX := x, pathStartY := y, inPath := True,
                      dc := dc p @ MoveTo x y # line_calls rest,
                      placeX := last (butlast (points q)), placeY := last (points q),
                      lastKey := CHR ''M''\<rparr>)
        \<and> addSeg L (q\<lparr>pathStartX := x, pathStartY := y, inPath := True,
                        dc := dc p @ MoveTo x y # line_calls rest,
                        placeX := last (butlast (points q)), placeY := last (points q),
                        lastKey := CHR ''M''\<rparr>) ''Z''
          = (None, q\<lparr>pathStartX := x, pathStartY := y, inPath := False,
                      dc := dc p @ MoveTo x y # line_calls rest,
                      placeX := x, placeY := y, points := [], lastKey := CHR ''Z''\<rparr>))"
proof (intro conjI impI)
  show "CompilePath L p ''M75 0, 0 200, 150 200 Z''
     = (None, p\<lparr>placeX := 75, placeY := 0, pathStartX := 75, pathStartY := 0, points := [],
                lastKey := CHR ''Z'', inPath := False,
                dc := dc p @ [MoveTo 75 0, LineTo 0 200, LineTo 150 200, ClosePath]\<rparr>)"
    by (simp add: eval_simps)
next
  assume a: "GetPoints L p args = (None, q) \<and> points q = x # y # rest \<and> even (length rest)"
  then have gp: "GetPoints L p (drop 1 (CHR ''M'' # args)) = (None, q)"
    and pts: "points q = x # y # rest" and ev: "even (length rest)"
    by simp_all
  show "addSeg L p (CHR ''M'' # args)
          = (None, q\<lparr>pathStartX := x, pathStartY := y, inPath := True,
                      dc := dc p @ MoveTo x y # line_calls rest,
                      placeX := last (butlast (points q)), placeY := last (points q),
                      lastKey := CHR ''M''\<rparr>)"
    using addSeg_MoveTo_abs [OF gp _ pts ev] by simp
  show "addSeg L (q\<lparr>pathStartX := x, pathStartY := y, inPath := True,
                        dc := dc p @ MoveTo x y # line_calls rest,
                        placeX := last (butlast (points q)), placeY := last (points q),
                        lastKey := CHR ''M''\<rparr>) ''Z''
          = (None, q\<lparr>pathStartX := x, pathStartY := y, inPath := False,
                      dc := dc p @ MoveTo x y # line_calls rest,
                      placeX := x, placeY := y, points := [], lastKey := CHR ''Z''\<rparr>)"
    by (simp add: addSeg_ClosePath [OF GetPoints_empty])
qed

theorem C4_moveto_lines_close_witness:
  "GetPoints ascii_lib (NewParser []) ''1 2, 3 4 5 0''
     = (None, (NewParser [])\<lparr>points := [1, 2, 3, 4, 5, 0]\<rparr>)
   \<and> even (length [3, 4, 5, 0 :: real])
   \<and> addSeg ascii_lib (NewParser []) ''M1 2, 3 4 5 0''
       = (None, (NewParser [MoveTo 1 2, LineTo 3 4, LineTo 5 0])\<lparr>points := [1, 2, 3, 4, 5, 0],
              pathStartX := 1, pathStartY := 2, inPath := True, placeX := 5, placeY := 0,
              lastKey := CHR ''M''\<rparr>)
   \<and> addSeg ascii_lib
         ((NewParser [MoveTo 1 2, LineTo 3 4, LineTo 5 0])\<lparr>points := [1, 2, 3, 4, 5, 0],
              pathStartX := 1, pathStartY := 2, inPath := True, placeX := 5, placeY := 0,
              lastKey := CHR ''M''\<rparr>) ''Z''
       = (None, (NewParser [MoveTo 1 2, LineTo 3 4, LineTo 5 0])\<lparr>points := [],
              pathStartX := 1, pathStartY := 2, inPath := False, placeX := 1, placeY := 2,
              lastKey := CHR ''Z''\<rparr>)"
proof -
  let ?q = "(NewParser [])\<lparr>points := [1, 2, 3, 4, 5, 0]\<rparr>"
  have gp: "GetPoints ascii_lib (NewParser []) ''1 2, 3 4 5 0'' = (None, ?q)"
    by (simp add: eval_simps NewParser_def)
  have pts: "points ?q = 1 # 2 # [3, 4, 5, 0]"
    by simp
  have ev: "even (length [3, 4, 5, 0 :: real])"
    by simp
  note t = C4_moveto_lines_close [where L = ascii_lib and p = "NewParser []"
      and args = "''1 2, 3 4 5 0''" and q = ?q and x = 1 and y = 2 and rest = "[3, 4, 5, 0]"]
  from t gp pts ev
  have "addSeg ascii_lib (NewParser []) (CHR ''M'' # ''1 2, 3 4 5 0'')
          = (None, ?q\<lparr>pathStartX := 1, pathStartY := 2, inPath := True,
                      dc := dc (NewParser []) @ MoveTo 1 2 # line_calls [3, 4, 5, 0],
                      placeX := last (butlast (points ?q)), placeY := last (points ?q),
                      lastKey := CHR ''M''\<rparr>)
        \<and> addSeg ascii_lib (?q\<lparr>pathStartX := 1, pathStartY := 2, inPath := True,
                        dc := dc (NewParser []) @ MoveTo 1 2 # line_calls [3, 4, 5, 0],
                        placeX := last (butlast (points ?q)), placeY := last (points ?q),
                        lastKey := CHR ''M''\<rparr>) ''Z''
          = (None, ?q\<lparr>pathStartX := 1, pathStartY := 2, inPath := False,
                      dc := dc (NewParser []) @ MoveTo 1 2 # line_calls [3, 4, 5, 0],
                      placeX := 1, placeY := 2, points := [], lastKey := CHR ''Z''\<rparr>)"
    by blast
  then show ?thesis
    using gp by (simp add: NewParser_def)
qed

section \<open>The state is reset at the start of every call\<close>

text \<open>
  C5. A relative MoveTo that is the first command of a path string resolves its
  coordinates against the origin. \<open>CompilePath\<close> resets the cursor, the points buffer,
  the last command and the open-subpath flag by \<open>init\<close> before any segment is processed,
  so a call does not depend on the values they had. When the first segment of a path is
  \<open>m\<close> with arguments that tokenize to the pair \<open>x y\<close> and the pairs \<open>rest\<close>, it emits
  move(x,y), sets the path start to \<open>(x, y)\<close>, and emits one line per further pair, each
  pair taken relative to the absolute pair before it (\<open>rel_pairs x y rest\<close>); the cursor
  ends on the last absolute pair. For any cursor \<open>(X, Y)\<close> a relative MoveTo does the same
  from \<open>(x + X, y + Y)\<close>; the first command is the case \<open>X = Y = 0\<close>. From any parser
  state \<open>CompilePath("m10 10")\<close> emits move(10,10), and \<open>CompilePath("m1 2 3 4")\<close> emits
  move(1,2), line(4,6), each followed by the closing call of a successful compilation.
\<close>

theorem C5_initial_state_reset:
  "CompilePath L p ''m10 10''
     = (None, p\<lparr>placeX := 10, placeY := 10, pathStartX := 10, pathStartY := 10,
                points := [10, 10], lastKey := CHR ''m'', inPath := True,
                dc := dc p @ [MoveTo 10 10, ClosePath]\<rparr>)
   \<and> CompilePath L p ''m1 2 3 4''
     = (None, p\<lparr>placeX := 4, placeY := 6, pathStartX := 1, pathStartY := 2,
                points := [1, 2, 4, 6], lastKey := CHR ''m'', inPath := True,
                dc := dc p @ [MoveTo 1 2, LineTo 4 6, ClosePath]\<rparr>)
   \<and> (segments L s = (CHR ''m'' # args) # post \<and> GetPoints L (init p) args = (None, q)
        \<and> points q = x # y # rest \<and> even (length rest) \<longrightarrow>
      CompilePath L p s =
        (case addSegs L
                (q\<lparr>points := x # y # rel_pairs x y rest,
                   pathStartX := x, pathStartY := y, inPath := True,
                   dc := dc p @ MoveTo x y # line_calls (rel_pairs x y rest),
                   placeX := last (butlast (x # y # rel_pairs x y rest)),
                   placeY := last (x # y # rel_pairs x y rest),
                   lastKey := CHR ''m''\<rparr>) post of
           (Some e, r) \<Rightarrow> (Some e, r)
         | (None, r) \<Rightarrow> (None, r\<lparr>dc := dc r @ [ClosePath]\<rparr>)))
   \<and> (GetPoints L c args = (None, d) \<and> points d = x # y # rest \<and> even (length rest) \<longrightarrow>
      addSeg L c (CHR ''m'' # args) =
        (None, d\<lparr>points := (x + placeX c) # (y + placeY c)
                               # rel_pairs (x + placeX c) (y + placeY c) rest,
                  pathStartX := x + placeX c, pathStartY := y + placeY c, inPath := True,
                  dc := dc c @ MoveTo (x + placeX c) (y + placeY c)
                          # line_calls (rel_pairs (x + placeX c) (y + placeY c) rest),
                  placeX := last (butlast ((x + placeX c) # (y + placeY c)
                             # rel_pairs (x + placeX c) (y + placeY c) rest)),
                  placeY := last ((x + placeX c) # (y + placeY c)
                             # rel_pairs (x + placeX c) (y + placeY c) rest),
                  lastKey := CHR ''m''\<rparr>))
   \<and> init p = p\<lparr>placeX := 0, placeY := 0, points := [], lastKey := CHR '' '', inPath := False\<rparr>
   \<and> CompilePath L (p\<lparr>placeX := a, placeY := b, points := ps, lastKey := k, inPath := f\<rparr>) s
       = CompilePath L p s"
proof (intro conjI impI)
  show "CompilePath L p ''m10 10''
     = (None, p\<lparr>placeX := 10, placeY := 10, pathStartX := 10, pathStartY := 10,
                points := [10, 10], lastKey := CHR ''m'', inPath := True,
                dc := dc p @ [MoveTo 10 10, ClosePath]\<rparr>)"
    by (simp add: eval_simps)
  show "CompilePath L p ''m1 2 3 4''
     = (None, p\<lparr>placeX := 4, placeY := 6, pathStartX := 1, pathStartY := 2,
                points := [1, 2, 4, 6], lastKey := CHR ''m'', inPath := True,
                dc := dc p @ [MoveTo 1 2, LineTo 4 6, ClosePath]\<rparr>)"
    by (simp add: eval_simps)
  show "init p = p\<lparr>placeX := 0, placeY := 0, points := [], lastKey := CHR '' '', inPath := False\<rparr>"
    by (simp add: init_def)
  show "CompilePath L (p\<lparr>placeX := a, placeY := b, points := ps, lastKey := k, inPath := f\<rparr>) s
       = CompilePath L p s"
    by (simp add: CompilePath_def init_def)
next
  assume h: "segments L s = (CHR ''m'' # args) # post \<and> GetPoints L (init p) args = (None, q)
        \<and> points q = x # y # rest \<and> even (length rest)"
  then have segs: "segments L s = [] @ (CHR ''m'' # args) # post"
    and gp: "GetPoints L (init p) args = (None, q)"
    and pts: "points q = x # y # rest" and ev: "even (length rest)"
    by simp_all
  have pre: "addSegs L (init p) [] = (None, init p)"
    by simp
  have origin: "placeX (init p) = 0" "placeY (init p) = 0" "dc (init p) = dc p"
    by (simp_all add: init_def)
  show "CompilePath L p s =
        (case addSegs L
                (q\<lparr>points := x # y # rel_pairs x y rest,
                   pathStartX := x, pathStartY := y, inPath := True,
                   dc := dc p @ MoveTo x y # line_calls (rel_pairs x y rest),
                   placeX := last (butlast (x # y # rel_pairs x y rest)),
                   placeY := last (x # y # rel_pairs x y rest),
                   lastKey := CHR ''m''\<rparr>) post of
           (Some e, r) \<Rightarrow> (Some e, r)
         | (None, r) \<Rightarrow> (None, r\<lparr>dc := dc r @ [ClosePath]\<rparr>))"
    unfolding CompilePath_through [OF segs pre] addSeg_MoveTo_rel [OF gp pts ev] origin
    by simp
next
  assume h: "GetPoints L c args = (None, d) \<and> points d = x # y # rest \<and> even (length rest)"
  then have gp: "GetPoints L c args = (None, d)"
    and pts: "points d = x # y # rest" and ev: "even (length rest)"
    by simp_all
  show "addSeg L c (CHR ''m'' # args) =
        (None, d\<lparr>points := (x + placeX c) # (y + placeY c)
                               # rel_pairs (x + placeX c) (y + placeY c) rest,
                  pathStartX := x + placeX c, pathStartY := y + placeY c, inPath := True,
                  dc := dc c @ MoveTo (x + placeX c) (y + placeY c)
                          # line_calls (rel_pairs (x + placeX c) (y + placeY c) rest),
                  placeX := last (butlast ((x + placeX c) # (y + placeY c)
                             # rel_pairs (x + placeX c) (y + placeY c) rest)),
                  placeY := last ((x + placeX c) # (y + placeY c)
                             # rel_pairs (x + placeX c) (y + placeY c) rest),
                  lastKey := CHR ''m''\<rparr>)"
    by (rule addSeg_MoveTo_rel [OF gp pts ev])
qed

theorem C5_initial_state_reset_witness:
  "segments ascii_lib '' m1 2 3 4 5 0z'' = (CHR ''m'' # ''1 2 3 4 5 0'') # [''z'']
   \<and> GetPoints ascii_lib (init ((NewParser [])\<lparr>placeX := 7, placeY := 9\<rparr>)) ''1 2 3 4 5 0''
       = (None, (init (NewParser []))\<lparr>points := [1, 2, 3, 4, 5, 0]\<rparr>)
   \<and> even (length [3, 4, 5, 0 :: real])
   \<and> CompilePath ascii_lib ((NewParser [])\<lparr>placeX := 7, placeY := 9\<rparr>) '' m1 2 3 4 5 0z''
       = (None, (NewParser [MoveTo 1 2, LineTo 4 6, LineTo 9 6, ClosePath])\<lparr>
                  points := [], pathStartX := 1, pathStartY := 2, placeX := 1, placeY := 2,
                  lastKey := CHR ''z''\<rparr>)
   \<and> addSeg ascii_lib ((NewParser [])\<lparr>placeX := 7, placeY := 9\<rparr>) ''m1 2 3 4 5 0''
       = (None, (NewParser [MoveTo 8 11, LineTo 11 15, LineTo 16 15])\<lparr>
                  points := [8, 11, 11, 15, 16, 15], pathStartX := 8, pathStartY := 11,
                  inPath := True, placeX := 16, placeY := 15, lastKey := CHR ''m''\<rparr>)"
proof -
  let ?c = "(NewParser [])\<lparr>placeX := 7, placeY := 9\<rparr>"
  let ?q = "(init (NewParser []))\<lparr>points := [1, 2, 3, 4, 5, 0]\<rparr>"
  let ?d = "?c\<lparr>points := [1, 2, 3, 4, 5, 0]\<rparr>"
  have segs: "segments ascii_lib '' m1 2 3 4 5 0z'' = (CHR ''m'' # ''1 2 3 4 5 0'') # [''z'']"
    by (simp add: split_simps)
  have gp: "GetPoints ascii_lib (init ?c) ''1 2 3 4 5 0'' = (None, ?q)"
    by (simp add: eval_simps NewParser_def)
  have gpc: "GetPoints ascii_lib ?c ''1 2 3 4 5 0'' = (None, ?d)"
    by (simp add: eval_simps NewParser_def)
  have pts: "points ?q = 1 # 2 # [3, 4, 5, 0]" "points ?d = 1 # 2 # [3, 4, 5, 0]"
    by simp_all
  have ev: "even (length [3, 4, 5, 0 :: real])"
    by simp
  note t = C5_initial_state_reset [where L = ascii_lib and p = ?c
      and s = "'' m1 2 3 4 5 0z''" and args = "''1 2 3 4 5 0''" and post = "[''z'']"
      and q = ?q and x = 1 and y = 2 and rest = "[3, 4, 5, 0]" and c = ?c and d = ?d]
  from t segs gp pts(1) ev
  have "CompilePath ascii_lib ?c '' m1 2 3 4 5 0z'' =
        (case addSegs ascii_lib
                (?q\<lparr>points := 1 # 2 # rel_pairs 1 2 [3, 4, 5, 0],
                   pathStartX := 1, pathStartY := 2, inPath := True,
                   dc := dc ?c @ MoveTo 1 2 # line_calls (rel_pairs 1 2 [3, 4, 5, 0]),
                   placeX := last (butlast (1 # 2 # rel_pairs 1 2 [3, 4, 5, 0])),
                   placeY := last (1 # 2 # rel_pairs 1 2 [3, 4, 5, 0]),
                   lastKey := CHR ''m''\<rparr>) [''z''] of
           (Some e, r) \<Rightarrow> (Some e, r)
         | (None, r) \<Rightarrow> (None, r\<lparr>dc := dc r @ [ClosePath]\<rparr>))"
    by blast
  then have cp: "CompilePath ascii_lib ?c '' m1 2 3 4 5 0z''
       = (None, (NewParser [MoveTo 1 2, LineTo 4 6, LineTo 9 6, ClosePath])\<lparr>
                  points := [], pathStartX := 1, pathStartY := 2, placeX := 1, placeY := 2,
                  lastKey := CHR ''z''\<rparr>)"
    by (simp add: eval_simps NewParser_def)
  from t gpc pts(2) ev
  have "addSeg ascii_lib ?c (CHR ''m'' # ''1 2 3 4 5 0'') =
        (None, ?d\<lparr>points := (1 + placeX ?c) # (2 + placeY ?c)
                               # rel_pairs (1 + placeX ?c) (2 + placeY ?c) [3, 4, 5, 0],
                  pathStartX := 1 + placeX ?c, pathStartY := 2 + placeY ?c, inPath := True,
                  dc := dc ?c @ MoveTo (1 + placeX ?c) (2 + placeY ?c)
                          # line_calls (rel_pairs (1 + placeX ?c) (2 + placeY ?c) [3, 4, 5, 0]),
                  placeX := last (butlast ((1 + placeX ?c) # (2 + placeY ?c)
                             # rel_pairs (1 + placeX ?c) (2 + placeY ?c) [3, 4, 5, 0])),
                  placeY := last ((1 + placeX ?c) # (2 + placeY ?c)
                             # rel_pairs (1 + placeX ?c) (2 + placeY ?c) [3, 4, 5, 0]),
                  lastKey := CHR ''m''\<rparr>)"
    by blast
  then have sg: "addSeg ascii_lib ?c ''m1 2 3 4 5 0''
       = (None, (NewParser [MoveTo 8 11, LineTo 11 15, LineTo 16 15])\<lparr>
                  points := [8, 11, 11, 15, 16, 15], pathStartX := 8, pathStartY := 11,
                  inPath := True, placeX := 16, placeY := 15, lastKey := CHR ''m''\<rparr>)"
    by (simp add: NewParser_def)
  from segs gp ev cp sg show ?thesis
    by simp
qed

section \<open>ParamMismatch\<close>

text \<open>
  C6, as amended. \<open>CompilePath\<close> fails with \<open>errParamMismatch\<close> exactly when it
  reaches, after segments that all succeeded, a segment whose argument text tokenizes
  without a parse error and which is either a MoveTo (\<open>m\<close>, \<open>M\<close>) whose number of values
  is not a positive multiple of 2, or a ClosePath (\<open>z\<close>, \<open>Z\<close>) with at least one value.
  A segment that fails so emits no call to the sink. \<open>"M1 2 3"\<close> fails with
  \<open>errParamMismatch\<close> and emits nothing. (A segment whose argument text does not tokenize
  fails with the parse error instead, whatever its count: see the counterexample, where
  \<open>"Z1 -"\<close> and \<open>"M1 2 3 -"\<close> return the error of \<open>strconv.ParseFloat\<close>.)
\<close>

theorem C6_param_mismatch:
  "(fst (CompilePath L p s) = Some errParamMismatch) =
     (\<exists>pre k args post q q'.
        segments L s = pre @ (k # args) # post
        \<and> addSegs L (init p) pre = (None, q)
        \<and> GetPoints L q args = (None, q')
        \<and> ((k = CHR ''m'' \<or> k = CHR ''M'')
              \<and> \<not> (2 \<le> length (points q') \<and> even (length (points q')))
            \<or> (k = CHR ''z'' \<or> k = CHR ''Z'') \<and> points q' \<noteq> []))
   \<and> (addSeg L r seg = (Some errParamMismatch, r') \<longrightarrow> dc r' = dc r)
   \<and> CompilePath L p ''M1 2 3'' = (Some errParamMismatch, (init p)\<lparr>points := [1, 2, 3]\<rparr>)"
proof (intro conjI impI)
  show "(fst (CompilePath L p s) = Some errParamMismatch) =
     (\<exists>pre k args post q q'.
        segments L s = pre @ (k # args) # post
        \<and> addSegs L (init p) pre = (None, q)
        \<and> GetPoints L q args = (None, q')
        \<and> ((k = CHR ''m'' \<or> k = CHR ''M'')
              \<and> \<not> (2 \<le> length (points q') \<and> even (length (points q')))
            \<or> (k = CHR ''z'' \<or> k = CHR ''Z'') \<and> points q' \<noteq> []))"
    by (rule CompilePath_ParamMismatch_iff)
  show "dc r' = dc r" if "addSeg L r seg = (Some errParamMismatch, r')"
    using addSeg_dc [OF that] by auto
  show "CompilePath L p ''M1 2 3'' = (Some errParamMismatch, (init p)\<lparr>points := [1, 2, 3]\<rparr>)"
    by (simp add: eval_simps)
qed

theorem C6_counterexample:
  "fst (CompilePath ascii_lib (NewParser []) ''Z1 -'') = Some (NumError ''-'')
   \<and> fst (CompilePath ascii_lib (NewParser []) ''Z1 -'') \<noteq> Some errParamMismatch
   \<and> fst (CompilePath ascii_lib (NewParser []) ''M1 2 3 -'') = Some (NumError ''-'')
   \<and> fst (CompilePath ascii_lib (NewParser []) ''M1 2 3 -'') \<noteq> Some errParamMismatch"
  by (simp add: eval_simps NewParser_def)

theorem C6_param_mismatch_witness:
  "addSeg ascii_lib (NewParser [MoveTo 7 7]) ''Z5''
     = (Some errParamMismatch, (NewParser [MoveTo 7 7])\<lparr>points := [5]\<rparr>)
   \<and> dc ((NewParser [MoveTo 7 7])\<lparr>points := [5]\<rparr>) = dc (NewParser [MoveTo 7 7])"
proof -
  have h: "addSeg ascii_lib (NewParser [MoveTo 7 7]) ''Z5''
     = (Some errParamMismatch, (NewParser [MoveTo 7 7])\<lparr>points := [5]\<rparr>)"
    by (simp add: eval_simps NewParser_def)
  from C6_param_mismatch [where L = ascii_lib and r = "NewParser [MoveTo 7 7]" and seg = "''Z5''"
      and r' = "(NewParser [MoveTo 7 7])\<lparr>points := [5]\<rparr>"] h
  have "dc ((NewParser [MoveTo 7 7])\<lparr>points := [5]\<rparr>) = dc (NewParser [MoveTo 7 7])"
    by blast
  with h show ?thesis
    by simp
qed

section \<open>Unknown command letters\<close>

text \<open>
  C7, as amended. For every segment whose first byte \<open>k\<close> is not one of the twenty
  command letters and whose argument text tokenizes without a parse error, the outcome is
  governed by \<open>ErrorMode\<close>: under Strict the segment fails with \<open>errCommandUnknown\<close>;
  under Ignore and Warn it is skipped: no call is made on the sink, the values stay in
  the buffer unused, \<open>lastKey\<close> becomes \<open>k\<close>, Warn logs one line, and \<open>CompilePath\<close>
  goes on with the segments that follow. \<open>"M1 2 X5 5"\<close> succeeds under Ignore and Warn and
  fails under Strict. (A segment whose argument text does not tokenize fails with the
  parse error under every mode, whatever its letter: see the counterexample.)
\<close>

theorem C7_unknown_command:
  "(k \<notin> set ''zZmMlLvVhHqQtTcCsSaA'' \<and> GetPoints L p args = (None, q) \<longrightarrow>
      dc q = dc p
      \<and> addSeg L p (k # args) =
          (if ErrorMode p = StrictErrorMode then (Some errCommandUnknown, q)
           else (None, q\<lparr>logged := (if ErrorMode p = WarnErrorMode
                                    then logged p @ [''Ignoring svg command '' @ string_of_byte k]
                                    else logged p),
                         lastKey := k\<rparr>))
      \<and> (segments L s = pre @ (k # args) # post \<and> addSegs L (init p0) pre = (None, p)
           \<and> ErrorMode p \<noteq> StrictErrorMode \<longrightarrow>
          CompilePath L p0 s =
            (case addSegs L (q\<lparr>logged := (if ErrorMode p = WarnErrorMode
                                    then logged p @ [''Ignoring svg command '' @ string_of_byte k]
                                    else logged p),
                         lastKey := k\<rparr>) post of
               (Some e, r) \<Rightarrow> (Some e, r)
             | (None, r) \<Rightarrow> (None, r\<lparr>dc := dc r @ [ClosePath]\<rparr>))))
   \<and> CompilePath L (p\<lparr>ErrorMode := IgnoreErrorMode\<rparr>) ''M1 2 X5 5''
       = (None, p\<lparr>ErrorMode := IgnoreErrorMode, points := [5, 5], placeX := 1, placeY := 2,
                    pathStartX := 1, pathStartY := 2, inPath := True, lastKey := CHR ''X'',
                    dc := dc p @ [MoveTo 1 2, ClosePath]\<rparr>)
   \<and> CompilePath L (p\<lparr>ErrorMode := WarnErrorMode\<rparr>) ''M1 2 X5 5''
       = (None, p\<lparr>ErrorMode := WarnErrorMode, points := [5, 5], placeX := 1, placeY := 2,
                    pathStartX := 1, pathStartY := 2, inPath := True, lastKey := CHR ''X'',
                    dc := dc p @ [MoveTo 1 2, ClosePath],
                    logged := logged p @ [''Ignoring svg command X'']\<rparr>)
   \<and> CompilePath L (p\<lparr>ErrorMode := StrictErrorMode\<rparr>) ''M1 2 X5 5''
       = (Some errCommandUnknown,
          p\<lparr>ErrorMode := StrictErrorMode, points := [5, 5], placeX := 1, placeY := 2,
             pathStartX := 1, pathStartY := 2, inPath := True, lastKey := CHR ''M'',
             dc := dc p @ [MoveTo 1 2]\<rparr>)"
proof (intro conjI impI)
  assume a: "k \<notin> set ''zZmMlLvVhHqQtTcCsSaA'' \<and> GetPoints L p args = (None, q)"
  then have k: "k \<notin> set ''zZmMlLvVhHqQtTcCsSaA''" and gp: "GetPoints L p args = (None, q)"
    by blast+
  show "dc q = dc p"
    using frame_fields(1) [OF GetPoints_frame [OF gp]] .
  show skip: "addSeg L p (k # args) =
          (if ErrorMode p = StrictErrorMode then (Some errCommandUnknown, q)
           else (None, q\<lparr>logged := (if ErrorMode p = WarnErrorMode
                                    then logged p @ [''Ignoring svg command '' @ string_of_byte k]
                                    else logged p),
                         lastKey := k\<rparr>))"
    by (rule addSeg_unknown [OF gp k])
  assume b: "segments L s = pre @ (k # args) # post \<and> addSegs L (init p0) pre = (None, p)
           \<and> ErrorMode p \<noteq> StrictErrorMode"
  then have segs: "segments L s = pre @ (k # args) # post"
    and pre: "addSegs L (init p0) pre = (None, p)" and m: "ErrorMode p \<noteq> StrictErrorMode"
    by blast+
  show "CompilePath L p0 s =
            (case addSegs L (q\<lparr>logged := (if ErrorMode p = WarnErrorMode
                                    then logged p @ [''Ignoring svg command '' @ string_of_byte k]
                                    else logged p),
                         lastKey := k\<rparr>) post of
               (Some e, r) \<Rightarrow> (Some e, r)
             | (None, r) \<Rightarrow> (None, r\<lparr>dc := dc r @ [ClosePath]\<rparr>))"
    unfolding CompilePath_through [OF segs pre] skip using m by simp
next
  show "CompilePath L (p\<lparr>ErrorMode := IgnoreErrorMode\<rparr>) ''M1 2 X5 5''
       = (None, p\<lparr>ErrorMode := IgnoreErrorMode, points := [5, 5], placeX := 1, placeY := 2,
                    pathStartX := 1, pathStartY := 2, inPath := True, lastKey := CHR ''X'',
                    dc := dc p @ [MoveTo 1 2, ClosePath]\<rparr>)"
    by (simp add: eval_simps)
  show "CompilePath L (p\<lparr>ErrorMode := WarnErrorMode\<rparr>) ''M1 2 X5 5''
       = (None, p\<lparr>ErrorMode := WarnErrorMode, points := [5, 5], placeX := 1, placeY := 2,
                    pathStartX := 1, pathStartY := 2, inPath := True, lastKey := CHR ''X'',
                    dc := dc p @ [MoveTo 1 2, ClosePath],
                    logged := logged p @ [''Ignoring svg command X'']\<rparr>)"
    by (simp add: eval_simps)
  show "CompilePath L (p\<lparr>ErrorMode := StrictErrorMode\<rparr>) ''M1 2 X5 5''
       = (Some errCommandUnknown,
          p\<lparr>ErrorMode := StrictErrorMode, points := [5, 5], placeX := 1, placeY := 2,
             pathStartX := 1, pathStartY := 2, inPath := True, lastKey := CHR ''M'',
             dc := dc p @ [MoveTo 1 2]\<rparr>)"
    by (simp add: eval_simps)
qed

theorem C7_counterexample:
  "ErrorMode (NewParser []) = IgnoreErrorMode
   \<and> CompilePath ascii_lib (NewParser []) ''M1 2 X-''
       = (Some (NumError ''-''),
          (NewParser [MoveTo 1 2])\<lparr>points := [], placeX := 1, placeY := 2, pathStartX := 1,
             pathStartY := 2, inPath := True, lastKey := CHR ''M''\<rparr>)"
  by (simp add: eval_simps NewParser_def)

theorem C7_unknown_command_witness:
  "CHR ''X'' \<notin> set ''zZmMlLvVhHqQtTcCsSaA''
   \<and> segments ascii_lib ''M1 2 X5 5 M3 4'' = [''M1 2 ''] @ ''X5 5 '' # [''M3 4'']
   \<and> ErrorMode (NewParser [])  \<noteq> StrictErrorMode
   \<and> addSeg ascii_lib
        ((NewParser [MoveTo 1 2])\<lparr>placeX := 1, placeY := 2, pathStartX := 1, pathStartY := 2,
           points := [1, 2], lastKey := CHR ''M'', inPath := True\<rparr>) ''X5 5 ''
       = (None, (NewParser [MoveTo 1 2])\<lparr>placeX := 1, placeY := 2, pathStartX := 1,
                  pathStartY := 2, points := [5, 5], lastKey := CHR ''X'', inPath := True\<rparr>)
   \<and> CompilePath ascii_lib (NewParser []) ''M1 2 X5 5 M3 4''
       = (None, (NewParser [MoveTo 1 2, MoveTo 3 4, ClosePath])\<lparr>placeX := 3, placeY := 4,
                  pathStartX := 3, pathStartY := 4, points := [3, 4], lastKey := CHR ''M'',
                  inPath := True\<rparr>)"
proof -
  let ?p = "(NewParser [MoveTo 1 2])\<lparr>placeX := 1, placeY := 2, pathStartX := 1, pathStartY := 2,
           points := [1, 2], lastKey := CHR ''M'', inPath := True\<rparr>"
  let ?q = "?p\<lparr>points := [5, 5]\<rparr>"
  have k: "CHR ''X'' \<notin> set ''zZmMlLvVhHqQtTcCsSaA''"
    by simp
  have gp: "GetPoints ascii_lib ?p ''5 5 '' = (None, ?q)"
    by (simp add: eval_simps NewParser_def)
  have segs: "segments ascii_lib ''M1 2 X5 5 M3 4'' = [''M1 2 ''] @ ''X5 5 '' # [''M3 4'']"
    by (simp add: split_simps)
  have pre: "addSegs ascii_lib (init (NewParser [])) [''M1 2 ''] = (None, ?p)"
    by (simp add: eval_simps NewParser_def)
  have m: "ErrorMode ?p \<noteq> StrictErrorMode" "ErrorMode (NewParser [])  \<noteq> StrictErrorMode"
    by (simp_all add: NewParser_def)
  have post: "addSegs ascii_lib (?q\<lparr>lastKey := CHR ''X''\<rparr>) [''M3 4'']
     = (None, (NewParser [MoveTo 1 2, MoveTo 3 4])\<lparr>placeX := 3, placeY := 4,
                  pathStartX := 3, pathStartY := 4, points := [3, 4], lastKey := CHR ''M'',
                  inPath := True\<rparr>)"
    by (simp add: eval_simps NewParser_def)
  note t = C7_unknown_command [where L = ascii_lib and k = "CHR ''X''" and p = ?p
      and args = "''5 5 ''" and q = ?q and s = "''M1 2 X5 5 M3 4''" and pre = "[''M1 2 '']"
      and post = "[''M3 4'']" and ?p0.0 = "NewParser []"]
  from t k gp have "addSeg ascii_lib ?p ''X5 5 '' =
          (if ErrorMode ?p = StrictErrorMode then (Some errCommandUnknown, ?q)
           else (None, ?q\<lparr>logged := (if ErrorMode ?p = WarnErrorMode
                                    then logged ?p @ [''Ignoring svg command '' @ string_of_byte (CHR ''X'')]
                                    else logged ?p),
                         lastKey := CHR ''X''\<rparr>))"
    by blast
  then have a: "addSeg ascii_lib ?p ''X5 5 '' = (None, ?q\<lparr>lastKey := CHR ''X''\<rparr>)"
    by (simp add: NewParser_def)
  from t k gp segs pre m(1) have "CompilePath ascii_lib (NewParser []) ''M1 2 X5 5 M3 4'' =
            (case addSegs ascii_lib (?q\<lparr>logged := (if ErrorMode ?p = WarnErrorMode
                                    then logged ?p @ [''Ignoring svg command '' @ string_of_byte (CHR ''X'')]
                                    else logged ?p),
                         lastKey := CHR ''X''\<rparr>) [''M3 4''] of
               (Some e, r) \<Rightarrow> (Some e, r)
             | (None, r) \<Rightarrow> (None, r\<lparr>dc := dc r @ [ClosePath]\<rparr>))"
    by blast
  also have "?q\<lparr>logged := (if ErrorMode ?p = WarnErrorMode
                                    then logged ?p @ [''Ignoring svg command '' @ string_of_byte (CHR ''X'')]
                                    else logged ?p),
                         lastKey := CHR ''X''\<rparr> = ?q\<lparr>lastKey := CHR ''X''\<rparr>"
    by (simp add: NewParser_def)
  finally have c: "CompilePath ascii_lib (NewParser []) ''M1 2 X5 5 M3 4''
       = (None, (NewParser [MoveTo 1 2, MoveTo 3 4, ClosePath])\<lparr>placeX := 3, placeY := 4,
                  pathStartX := 3, pathStartY := 4, points := [3, 4], lastKey := CHR ''M'',
                  inPath := True\<rparr>)"
    unfolding post by (simp add: NewParser_def)
  from k segs m(2) a c show ?thesis
    by (simp add: NewParser_def)
qed

section \<open>The first error ends the compilation\<close>

text \<open>
  C8. When the segments before \<open>seg\<close> have been processed without error, leaving the
  parser in state \<open>q\<close>, and \<open>addSeg\<close> on \<open>seg\<close> returns the error \<open>e\<close> and the state
  \<open>q'\<close>, then \<open>CompilePath\<close> returns \<open>e\<close> with exactly the state \<open>q'\<close>: no later segment
  is processed. The calls on the sink are those of the earlier segments, kept as they are
  (no rollback), the failing segment has added none, and no close call is among them.
\<close>

theorem C8_error_aborts:
  assumes "segments L s = pre @ seg # post"
    and "addSegs L (init p) pre = (None, q)"
    and "addSeg L q seg = (Some e, q')"
  shows "CompilePath L p s = (Some e, q') \<and> dc q' = dc q
         \<and> (\<exists>cs. dc q' = dc p @ cs \<and> ClosePath \<notin> set cs)"
  using assms by (rule CompilePath_stops_at)

theorem C8_error_aborts_witness:
  "segments ascii_lib ''M1 2 L3 4 M5 6'' = [''M1 2 ''] @ ''L3 4 '' # [''M5 6'']
   \<and> fst (CompilePath ascii_lib (NewParser []) ''M1 2 L3 4 M5 6'') = Some errNotImplemented
   \<and> dc (snd (CompilePath ascii_lib (NewParser []) ''M1 2 L3 4 M5 6'')) = [MoveTo 1 2]"
proof -
  define q where "q = snd (addSegs ascii_lib (init (NewParser [])) [''M1 2 ''])"
  define q' where "q' = snd (addSeg ascii_lib q ''L3 4 '')"
  have h1: "segments ascii_lib ''M1 2 L3 4 M5 6'' = [''M1 2 ''] @ ''L3 4 '' # [''M5 6'']"
    by (simp add: split_simps)
  have q: "q = (init (NewParser []))\<lparr>points := [1, 2], pathStartX := 1, pathStartY := 2,
                  inPath := True, dc := [MoveTo 1 2], placeX := 1, placeY := 2,
                  lastKey := CHR ''M''\<rparr>"
    unfolding q_def by (simp add: eval_simps NewParser_def)
  have h2: "addSegs ascii_lib (init (NewParser [])) [''M1 2 ''] = (None, q)"
    unfolding q by (simp add: eval_simps NewParser_def)
  have h3: "addSeg ascii_lib q ''L3 4 '' = (Some errNotImplemented, q')"
    unfolding q'_def q by (simp add: eval_simps NewParser_def)
  have dcq: "dc q = [MoveTo 1 2]"
    unfolding q by simp
  from C8_error_aborts [OF h1 h2 h3] h1 dcq show ?thesis
    by simp
qed

section \<open>Commands that are recognized but not implemented\<close>

text \<open>
  C9, as amended. For each of the letters L, l, H, h, V, v, C, c, S, s, Q, q, T, t, A, a:
  a segment with that letter whose argument text tokenizes without a parse error fails
  with \<open>errNotImplemented\<close> and emits no call to the sink, whatever the \<open>ErrorMode\<close> and
  however many values it carries; \<open>CompilePath\<close> returns \<open>errNotImplemented\<close> at the first
  such segment it reaches. \<open>"A1 2 3"\<close> fails so under every mode. (When the argument text
  does not tokenize, the parse error is returned instead: see the counterexample.)
\<close>

theorem C9_not_implemented:
  "(k \<in> set ''LlHhVvCcSsQqTtAa'' \<and> GetPoints L p args = (None, q) \<longrightarrow>
      fst (addSeg L p (k # args)) = Some errNotImplemented
      \<and> dc (snd (addSeg L p (k # args))) = dc p
      \<and> (segments L s = pre @ (k # args) # post \<and> addSegs L (init p0) pre = (None, p) \<longrightarrow>
           fst (CompilePath L p0 s) = Some errNotImplemented
           \<and> dc (snd (CompilePath L p0 s)) = dc p))
   \<and> CompilePath L (p\<lparr>ErrorMode := m\<rparr>) ''A1 2 3''
       = (Some errNotImplemented, (init p)\<lparr>ErrorMode := m, points := [1, 2, 3]\<rparr>)"
proof (intro conjI impI)
  assume a: "k \<in> set ''LlHhVvCcSsQqTtAa'' \<and> GetPoints L p args = (None, q)"
  then have k: "k \<in> set ''LlHhVvCcSsQqTtAa''" and gp: "GetPoints L p args = (None, q)"
    by blast+
  note ni = addSeg_not_implemented [OF gp k]
  from ni show e: "fst (addSeg L p (k # args)) = Some errNotImplemented"
    and d: "dc (snd (addSeg L p (k # args))) = dc p"
    by blast+
  assume b: "segments L s = pre @ (k # args) # post \<and> addSegs L (init p0) pre = (None, p)"
  then have segs: "segments L s = pre @ (k # args) # post"
    and pre: "addSegs L (init p0) pre = (None, p)"
    by blast+
  obtain r where r: "addSeg L p (k # args) = (Some errNotImplemented, r)"
    using e by (cases "addSeg L p (k # args)") auto
  from CompilePath_stops_at [OF segs pre r] d r
  show "fst (CompilePath L p0 s) = Some errNotImplemented"
    and "dc (snd (CompilePath L p0 s)) = dc p"
    by simp_all
next
  show "CompilePath L (p\<lparr>ErrorMode := m\<rparr>) ''A1 2 3''
       = (Some errNotImplemented, (init p)\<lparr>ErrorMode := m, points := [1, 2, 3]\<rparr>)"
    by (simp add: eval_simps)
qed

theorem C9_counterexample:
  "fst (CompilePath ascii_lib (NewParser []) ''L.'') = Some (NumError ''.'')
   \<and> fst (CompilePath ascii_lib (NewParser []) ''L.'') \<noteq> Some errNotImplemented"
  by (simp add: eval_simps NewParser_def)

theorem C9_not_implemented_witness:
  "CHR ''q'' \<in> set ''LlHhVvCcSsQqTtAa''
   \<and> segments ascii_lib ''M1 2 q3 M5 6'' = [''M1 2 ''] @ ''q3 '' # [''M5 6'']
   \<and> fst (CompilePath ascii_lib ((NewParser [])\<lparr>ErrorMode := WarnErrorMode\<rparr>) ''M1 2 q3 M5 6'')
       = Some errNotImplemented
   \<and> dc (snd (CompilePath ascii_lib ((NewParser [])\<lparr>ErrorMode := WarnErrorMode\<rparr>)
              ''M1 2 q3 M5 6'')) = [MoveTo 1 2]"
proof -
  let ?start = "(NewParser [])\<lparr>ErrorMode := WarnErrorMode\<rparr>"
  let ?p = "(NewParser [MoveTo 1 2])\<lparr>ErrorMode := WarnErrorMode, placeX := 1, placeY := 2,
           pathStartX := 1, pathStartY := 2, points := [1, 2], lastKey := CHR ''M'',
           inPath := True\<rparr>"
  have k: "CHR ''q'' \<in> set ''LlHhVvCcSsQqTtAa''"
    by simp
  have gp: "GetPoints ascii_lib ?p ''3 '' = (None, ?p\<lparr>points := [3]\<rparr>)"
    by (simp add: eval_simps NewParser_def)
  have segs: "segments ascii_lib ''M1 2 q3 M5 6'' = [''M1 2 ''] @ ''q3 '' # [''M5 6'']"
    by (simp add: split_simps)
  have pre: "addSegs ascii_lib (init ?start) [''M1 2 ''] = (None, ?p)"
    by (simp add: eval_simps NewParser_def)
  from C9_not_implemented [where L = ascii_lib and k = "CHR ''q''" and p = ?p
      and args = "''3 ''" and q = "?p\<lparr>points := [3]\<rparr>" and s = "''M1 2 q3 M5 6''"
      and pre = "[''M1 2 '']" and post = "[''M5 6'']" and ?p0.0 = ?start] k gp segs pre
  have "fst (CompilePath ascii_lib ?start ''M1 2 q3 M5 6'') = Some errNotImplemented
      \<and> dc (snd (CompilePath ascii_lib ?start ''M1 2 q3 M5 6'')) = dc ?p"
    by blast
  with k segs show ?thesis
    by (simp add: NewParser_def)
qed

section \<open>The closing call\<close>

text \<open>
  C10. Every successful \<open>CompilePath\<close> makes exactly one \<open>ClosePath\<close> call on the sink,
  as its last call: the calls it adds are some calls without \<open>ClosePath\<close> followed by one
  \<open>ClosePath\<close>. This holds for the empty path string too, which emits the close call
  alone. A \<open>z\<close> or \<open>Z\<close> segment without values emits no call: it moves the cursor to
  the path start and clears the open-subpath flag when a subpath is open, empties the
  buffer and records the letter.
\<close>

theorem C10_single_trailing_close:
  "(CompilePath L p s = (None, q)
      \<longrightarrow> (\<exists>cs. dc q = dc p @ cs @ [ClosePath] \<and> ClosePath \<notin> set cs))
   \<and> CompilePath L p [] = (None, (init p)\<lparr>dc := dc p @ [ClosePath]\<rparr>)
   \<and> ((k = CHR ''z'' \<or> k = CHR ''Z'') \<and> GetPoints L p args = (None, qz) \<and> points qz = []
      \<longrightarrow> addSeg L p (k # args)
            = (None, (if inPath p
                      then p\<lparr>placeX := pathStartX p, placeY := pathStartY p, inPath := False\<rparr>
                      else p)\<lparr>points := [], lastKey := k\<rparr>)
          \<and> dc (snd (addSeg L p (k # args))) = dc p)"
proof (intro conjI impI)
  assume ok: "CompilePath L p s = (None, q)"
  obtain e1 q0 where segs: "addSegs L (init p) (segments L s) = (e1, q0)"
    by (cases "addSegs L (init p) (segments L s)")
  from ok segs have q: "e1 = None" "q = q0\<lparr>dc := dc q0 @ [ClosePath]\<rparr>"
    by (auto simp: CompilePath_segments split: option.splits)
  from addSegs_dc [OF segs] obtain cs where "dc q0 = dc (init p) @ cs" "ClosePath \<notin> set cs"
    by blast
  with q have "dc q = dc p @ cs @ [ClosePath] \<and> ClosePath \<notin> set cs"
    by (simp add: init_def)
  then show "\<exists>cs. dc q = dc p @ cs @ [ClosePath] \<and> ClosePath \<notin> set cs"
    by blast
next
  show "CompilePath L p [] = (None, (init p)\<lparr>dc := dc p @ [ClosePath]\<rparr>)"
    by (simp add: CompilePath_def init_def)
next
  assume a: "(k = CHR ''z'' \<or> k = CHR ''Z'') \<and> GetPoints L p args = (None, qz) \<and> points qz = []"
  then have k: "k = CHR ''z'' \<or> k = CHR ''Z''" and gp: "GetPoints L p args = (None, qz)"
    and e: "points qz = []"
    by simp_all
  from addSeg_ClosePath [OF gp k] e
  show r: "addSeg L p (k # args)
            = (None, (if inPath p
                      then p\<lparr>placeX := pathStartX p, placeY := pathStartY p, inPath := False\<rparr>
                      else p)\<lparr>points := [], lastKey := k\<rparr>)"
    by simp
  show "dc (snd (addSeg L p (k # args))) = dc p"
    unfolding r by simp
qed

theorem C10_single_trailing_close_witness:
  "CompilePath ascii_lib (NewParser []) ''M1 2 3 4''
     = (None, (NewParser [])\<lparr>points := [1, 2, 3, 4], pathStartX := 1, pathStartY := 2,
                  inPath := True, dc := [MoveTo 1 2, LineTo 3 4, ClosePath],
                  placeX := 3, placeY := 4, lastKey := CHR ''M''\<rparr>)
   \<and> (\<exists>cs. [MoveTo 1 2, LineTo 3 4, ClosePath] = dc (NewParser []) @ cs @ [ClosePath]
          \<and> ClosePath \<notin> set cs)
   \<and> GetPoints ascii_lib ((NewParser [MoveTo 1 2])\<lparr>inPath := True, pathStartX := 1\<rparr>) '' ''
       = (None, (NewParser [MoveTo 1 2])\<lparr>inPath := True, pathStartX := 1\<rparr>)
   \<and> addSeg ascii_lib ((NewParser [MoveTo 1 2])\<lparr>inPath := True, pathStartX := 1\<rparr>) ''z ''
       = (None, (NewParser [MoveTo 1 2])\<lparr>pathStartX := 1, placeX := 1, lastKey := CHR ''z''\<rparr>)"
proof -
  let ?p = "(NewParser [MoveTo 1 2])\<lparr>inPath := True, pathStartX := 1\<rparr>"
  let ?q = "(NewParser [])\<lparr>points := [1, 2, 3, 4], pathStartX := 1, pathStartY := 2,
                  inPath := True, dc := [MoveTo 1 2, LineTo 3 4, ClosePath],
                  placeX := 3, placeY := 4, lastKey := CHR ''M''\<rparr>"
  have h1: "CompilePath ascii_lib (NewParser []) ''M1 2 3 4'' = (None, ?q)"
    by (simp add: eval_simps NewParser_def)
  have h2: "GetPoints ascii_lib ?p '' '' = (None, ?p)"
    by (simp add: eval_simps NewParser_def)
  have h3: "points ?p = []"
    by (simp add: NewParser_def)
  note t1 = C10_single_trailing_close [where L = ascii_lib and p = "NewParser []"
      and s = "''M1 2 3 4''" and q = ?q]
  note t2 = C10_single_trailing_close [where L = ascii_lib and p = ?p and k = "CHR ''z''"
      and args = "'' ''" and qz = ?p]
  from t1 h1 have "\<exists>cs. dc ?q = dc (NewParser []) @ cs @ [ClosePath] \<and> ClosePath \<notin> set cs"
    by blast
  moreover from t2 h2 h3 have "addSeg ascii_lib ?p ''z ''
       = (None, (if inPath ?p
                      then ?p\<lparr>placeX := pathStartX ?p, placeY := pathStartY ?p, inPath := False\<rparr>
                      else ?p)\<lparr>points := [], lastKey := CHR ''z''\<rparr>)"
    by blast
  ultimately show ?thesis
    using h1 h2 by (simp add: NewParser_def)
qed

end
